theory Spec2Isabelle
  imports Main "HOL-Library.Word"
begin

unbundle bit_operations_syntax

section \<open>libwsc: the WebSocket receiver (WebSocketReceiver.cpp)\<close>

text \<open>
  A shallow embedding of \<^verbatim>\<open>WebSocketReceiver\<close>: the frame parser \<^verbatim>\<open>onData\<close>, the
  per-frame handlers, the close-frame sanitiser, the stand-alone UTF-8 check
  \<^verbatim>\<open>isValidUtf8\<close> and the permessage-deflate glue around zlib.

  Conventions of the model:
  \<^item> a byte (\<^verbatim>\<open>uint8_t\<close>, \<^verbatim>\<open>unsigned char\<close>) is an \<open>8 word\<close>; a buffer, a
    \<^verbatim>\<open>std::vector<uint8_t>\<close> or a \<^verbatim>\<open>std::string\<close> is a list of bytes;
  \<^item> \<^verbatim>\<open>size_t\<close> is 64 bits wide and \<^verbatim>\<open>uInt\<close> (zlib) 32 bits wide; the casts
    between them are written out as \<open>mod\<close>;
  \<^item> the sink interface \<^verbatim>\<open>IWebSocketSinks\<close> is pure virtual: every call of an
    \<^verbatim>\<open>onRx...\<close> method is recorded in a log of \<open>sink_event\<close>s, and the two
    queries \<^verbatim>\<open>rxCompressionEnabled\<close> and \<^verbatim>\<open>rxIsTerminating\<close> are functions of
    that log;
  \<^item> zlib is an external library: its entry points are the fields of a record
    \<open>'z zlib\<close> over an abstract stream state \<open>'z\<close>. A call returns the return
    code, the number of input bytes consumed, the bytes written and the new
    stream state;
  \<^item> the class \<^verbatim>\<open>Utf8Validator\<close> (header \<^verbatim>\<open>Utf8Validator.h\<close>, not part of the
    sources at hand) is a parameter as well, see \<open>Utf8Validator\<close> below;
  \<^item> a function that may not return (the inflate loop calls zlib until zlib
    reports completion) returns an \<open>option\<close>, \<open>None\<close> meaning no return.
\<close>

type_synonym byte = "8 word"

subsection \<open>isValidUtf8 (WebSocketReceiver.cpp, lines 612-673)\<close>

text \<open>
  The source walks the byte array with an index \<^verbatim>\<open>i\<close>; \<open>utf8_loop bytes i\<close> is the
  \<^verbatim>\<open>while (i < len)\<close> loop entered at index \<open>i\<close>. The \<^verbatim>\<open>||\<close> of C evaluates
  the length test first, so no read is out of range.
\<close>

function utf8_loop :: "byte list \<Rightarrow> nat \<Rightarrow> bool" where
  "utf8_loop bytes i =
     (if i < length bytes then
        if bytes ! i \<le> 0x7F then utf8_loop bytes (i + 1)
        else if bytes ! i \<ge> 0xF5 \<or> (bytes ! i \<ge> 0xC0 \<and> bytes ! i \<le> 0xC1) then False
        else if bytes ! i AND 0xE0 = 0xC0 then
          if i + 1 \<ge> length bytes \<or> bytes ! (i + 1) AND 0xC0 \<noteq> 0x80 then False
          else utf8_loop bytes (i + 2)
        else if bytes ! i AND 0xF0 = 0xE0 then
          if i + 2 \<ge> length bytes \<or> bytes ! (i + 1) AND 0xC0 \<noteq> 0x80
             \<or> bytes ! (i + 2) AND 0xC0 \<noteq> 0x80 then False
          else if bytes ! i = 0xE0 \<and> bytes ! (i + 1) < 0xA0 then False
          else if bytes ! i = 0xED \<and> bytes ! (i + 1) \<ge> 0xA0 then False
          else utf8_loop bytes (i + 3)
        else if bytes ! i AND 0xF8 = 0xF0 then
          if i + 3 \<ge> length bytes \<or> bytes ! (i + 1) AND 0xC0 \<noteq> 0x80
             \<or> bytes ! (i + 2) AND 0xC0 \<noteq> 0x80
             \<or> bytes ! (i + 3) AND 0xC0 \<noteq> 0x80 then False
          else if bytes ! i = 0xF0 \<and> bytes ! (i + 1) < 0x90 then False
          else if bytes ! i = 0xF4 \<and> bytes ! (i + 1) > 0x8F then False
          else utf8_loop bytes (i + 4)
        else False
      else True)"
  by pat_completeness auto
termination
  by (relation "measure (\<lambda>(bytes, i). length bytes - i)") auto

declare utf8_loop.simps [simp del]

definition isValidUtf8 :: "byte list \<Rightarrow> bool" where
  "isValidUtf8 str = utf8_loop str 0"

text \<open>
  The reference the claim compares \<open>isValidUtf8\<close> with, written from RFC 3629 and
  not from the code: a Unicode scalar value is a code point up to U+10FFFF that is
  not a surrogate, and \<open>utf8_encode\<close> is the encoding table of RFC 3629, section 3.
\<close>

definition is_scalar :: "nat \<Rightarrow> bool" where
  "is_scalar c = (c < 0xD800 \<or> (0xDFFF < c \<and> c \<le> 0x10FFFF))"

definition utf8_encode :: "nat \<Rightarrow> byte list" where
  "utf8_encode c =
     (if c < 0x80 then [of_nat c]
      else if c < 0x800 then [of_nat (0xC0 + c div 64), of_nat (0x80 + c mod 64)]
      else if c < 0x10000 then
        [of_nat (0xE0 + c div 4096), of_nat (0x80 + c div 64 mod 64), of_nat (0x80 + c mod 64)]
      else
        [of_nat (0xF0 + c div 262144), of_nat (0x80 + c div 4096 mod 64),
         of_nat (0x80 + c div 64 mod 64), of_nat (0x80 + c mod 64)])"

text \<open>A continuation byte is \<open>10xxxxxx\<close>; a lead byte announces how many follow.\<close>

definition is_continuation :: "byte \<Rightarrow> bool" where
  "is_continuation b = (0x80 \<le> b \<and> b \<le> 0xBF)"

definition required_continuations :: "byte \<Rightarrow> nat" where
  "required_continuations b0 =
     (if 0xC2 \<le> b0 \<and> b0 \<le> 0xDF then 1
      else if 0xE0 \<le> b0 \<and> b0 \<le> 0xEF then 2
      else if 0xF0 \<le> b0 \<and> b0 \<le> 0xF4 then 3
      else 0)"

text \<open>
  Two auxiliary views used in the proofs only: \<open>is_cont\<close> is the continuation
  test on the unsigned value, and \<open>utf8_ok\<close> is the loop of \<open>isValidUtf8\<close> as a
  recursion over the remaining bytes (shown equal to \<open>utf8_loop\<close> below).
\<close>

definition is_cont :: "byte \<Rightarrow> bool" where
  "is_cont b = (128 \<le> unat b \<and> unat b \<le> 191)"

fun utf8_ok :: "byte list \<Rightarrow> bool" where
  "utf8_ok [] = True"
| "utf8_ok (b0 # bs) =
     (if unat b0 \<le> 127 then utf8_ok bs
      else if 194 \<le> unat b0 \<and> unat b0 \<le> 223 then
        (case bs of b1 # r \<Rightarrow> is_cont b1 \<and> utf8_ok r | _ \<Rightarrow> False)
      else if 224 \<le> unat b0 \<and> unat b0 \<le> 239 then
        (case bs of b1 # b2 # r \<Rightarrow>
           is_cont b1 \<and> is_cont b2 \<and> \<not> (unat b0 = 224 \<and> unat b1 < 160)
           \<and> \<not> (unat b0 = 237 \<and> 160 \<le> unat b1) \<and> utf8_ok r
         | _ \<Rightarrow> False)
      else if 240 \<le> unat b0 \<and> unat b0 \<le> 244 then
        (case bs of b1 # b2 # b3 # r \<Rightarrow>
           is_cont b1 \<and> is_cont b2 \<and> is_cont b3 \<and> \<not> (unat b0 = 240 \<and> unat b1 < 144)
           \<and> \<not> (unat b0 = 244 \<and> 143 < unat b1) \<and> utf8_ok r
         | _ \<Rightarrow> False)
      else False)"

subsection \<open>The sink interface (IWebSocketSinks.h)\<close>

text \<open>
  One constructor per \<^verbatim>\<open>onRx...\<close> method. A close code and an error code are
  \<^verbatim>\<open>uint16_t\<close>; the values the receiver passes are below 65536, so they are
  natural numbers here. Payloads and reasons are byte lists, the \<^verbatim>\<open>why\<close> of a
  protocol error is the literal of the source.
\<close>

datatype sink_event =
    RxPong "byte list"
  | RxPing "byte list"
  | RxClose nat "byte list"
  | RxProtocolError nat string
  | RxText "byte list"
  | RxBinary "byte list"

record sinks =
  rxCompressionEnabled :: "sink_event list \<Rightarrow> bool"
  rxIsTerminating :: "sink_event list \<Rightarrow> bool"

subsection \<open>Receiver state (WebSocketReceiver.h)\<close>

record PerMessageDeflateConfig =
  enabled :: bool
  client_no_context_takeover :: bool
  server_no_context_takeover :: bool
  client_max_window_bits :: int
  server_max_window_bits :: int
  compression_level :: int

text \<open>zlib's return codes and constants (zlib.h).\<close>

definition Z_OK :: int where "Z_OK = 0"
definition Z_STREAM_END :: int where "Z_STREAM_END = 1"
definition Z_BUF_ERROR :: int where "Z_BUF_ERROR = - 5"
definition Z_DEFAULT_COMPRESSION :: int where "Z_DEFAULT_COMPRESSION = - 1"

text \<open>
  zlib's entry points as the receiver calls them. \<open>inflateInit2 wbits\<close> and
  \<open>deflateInit2 level wbits\<close> (method \<^verbatim>\<open>Z_DEFLATED\<close>, memLevel 8, default
  strategy) return the code and the fresh stream. \<open>deflate strm input avail_out\<close>
  and \<open>inflate strm input avail_out\<close> are one call with \<^verbatim>\<open>Z_SYNC_FLUSH\<close> on the
  stream whose \<^verbatim>\<open>next_in\<close>/\<^verbatim>\<open>avail_in\<close> hold \<open>input\<close>; they return the code,
  the number of bytes consumed, the bytes written to \<^verbatim>\<open>next_out\<close> and the new
  stream. The model cuts the written bytes to \<open>avail_out\<close> and the consumed
  count to the input's length, as zlib guarantees.
\<close>

record 'z zlib =
  inflateInit2 :: "int \<Rightarrow> int \<times> 'z"
  deflateInit2 :: "int \<Rightarrow> int \<Rightarrow> int \<times> 'z"
  inflateReset :: "'z \<Rightarrow> 'z"
  deflateReset :: "'z \<Rightarrow> 'z"
  deflateBound :: "'z \<Rightarrow> nat \<Rightarrow> nat"
  deflate :: "'z \<Rightarrow> byte list \<Rightarrow> nat \<Rightarrow> int \<times> nat \<times> byte list \<times> 'z"
  inflate :: "'z \<Rightarrow> byte list \<Rightarrow> nat \<Rightarrow> int \<times> nat \<times> byte list \<times> 'z"

text \<open>
  Modelled from the spec: the class \<^verbatim>\<open>Utf8Validator\<close> is declared in a header
  that is not among the sources. The spec (4.A) gives its contract: \<^verbatim>\<open>feed\<close>
  (here \<open>validateChunk\<close>, the name the receiver calls) returns false on an
  invalid sequence, \<^verbatim>\<open>finish\<close> (\<open>validateFinal\<close>) returns false if a multi-byte
  sequence was left incomplete, and \<open>reset\<close> clears the partial state. The
  validator is a parameter: \<open>reset\<close> is the cleared state, the two checks return
  their verdict and the state they leave.
\<close>

record 'u Utf8Validator =
  reset :: "'u"
  validateChunk :: "'u \<Rightarrow> byte list \<Rightarrow> bool \<times> 'u"
  validateFinal :: "'u \<Rightarrow> bool \<times> 'u"

text \<open>The data members of \<^verbatim>\<open>WebSocketReceiver\<close>.\<close>

record ('z, 'u) receiver =
  cfg :: PerMessageDeflateConfig
  inflate_stream :: 'z
  deflate_stream :: 'z
  inflate_initialized :: bool
  deflate_initialized :: bool
  tx_compressed_buf :: "byte list"
  tx_payload_len :: nat
  message_in_progress :: bool
  compressed_message_in_progress :: bool
  fragmented_opcode :: int
  fragmented_message :: "byte list"
  utf8Validator :: 'u

text \<open>
  The receiver runs against its sinks: a world is the log of the sink calls made
  so far and the receiver's state. \<open>emit\<close> is one call of an \<^verbatim>\<open>onRx...\<close> method.
\<close>

type_synonym ('z, 'u) world = "sink_event list \<times> ('z, 'u) receiver"

definition emit :: "sink_event \<Rightarrow> ('z, 'u) world \<Rightarrow> ('z, 'u) world" where
  "emit e w = (fst w @ [e], snd w)"

subsection \<open>Compression set-up (lines 21-101)\<close>

definition default_cfg :: PerMessageDeflateConfig where
  "default_cfg = \<lparr> enabled = False, client_no_context_takeover = False,
     server_no_context_takeover = False, client_max_window_bits = 15,
     server_max_window_bits = 15, compression_level = Z_DEFAULT_COMPRESSION \<rparr>"

definition shutdownCompression :: "('z, 'u) receiver \<Rightarrow> ('z, 'u) receiver" where
  "shutdownCompression r =
     r\<lparr> inflate_initialized := False, deflate_initialized := False,
        tx_compressed_buf := [], tx_payload_len := 0, cfg := default_cfg \<rparr>"

definition rxInitInflate :: "'z zlib \<Rightarrow> ('z, 'u) receiver \<Rightarrow> bool \<times> ('z, 'u) receiver" where
  "rxInitInflate Z r =
     (let (ret, strm) = inflateInit2 Z (- server_max_window_bits (cfg r));
          r1 = r\<lparr> inflate_stream := strm \<rparr>
      in if ret \<noteq> Z_OK then (False, r1)
         else (True, r1\<lparr> inflate_initialized := True \<rparr>))"

definition txInitDeflate :: "'z zlib \<Rightarrow> ('z, 'u) receiver \<Rightarrow> bool \<times> ('z, 'u) receiver" where
  "txInitDeflate Z r =
     (let (ret, strm) = deflateInit2 Z (compression_level (cfg r))
                          (- client_max_window_bits (cfg r));
          r1 = r\<lparr> deflate_stream := strm \<rparr>
      in if ret \<noteq> Z_OK then (False, r1)
         else (True, r1\<lparr> deflate_initialized := True \<rparr>))"

definition initializeCompression ::
  "'z zlib \<Rightarrow> ('z, 'u) receiver \<Rightarrow> PerMessageDeflateConfig \<Rightarrow> bool \<times> ('z, 'u) receiver" where
  "initializeCompression Z r c =
     (let r1 = (shutdownCompression r)\<lparr> cfg := c \<rparr>
      in if \<not> enabled (cfg r1) then (True, r1)
         else let (ok_rx, r2) = rxInitInflate Z r1
              in if \<not> ok_rx then (False, shutdownCompression r2)
                 else let (ok_tx, r3) = txInitDeflate Z r2
                      in if \<not> ok_tx
                         then (False, shutdownCompression (r3\<lparr> inflate_initialized := False \<rparr>))
                         else (True, r3))"

definition rxResetInflate :: "'z zlib \<Rightarrow> ('z, 'u) receiver \<Rightarrow> ('z, 'u) receiver" where
  "rxResetInflate Z r =
     (if \<not> inflate_initialized r then r
      else snd (rxInitInflate Z (r\<lparr> inflate_initialized := False \<rparr>)))"

definition txResetDeflate :: "'z zlib \<Rightarrow> ('z, 'u) receiver \<Rightarrow> ('z, 'u) receiver" where
  "txResetDeflate Z r =
     (if \<not> deflate_initialized r then r
      else r\<lparr> deflate_stream := deflateReset Z (deflate_stream r) \<rparr>)"

definition txReinitAfterNoContextTakeover ::
  "'z zlib \<Rightarrow> ('z, 'u) receiver \<Rightarrow> bool \<times> ('z, 'u) receiver" where
  "txReinitAfterNoContextTakeover Z r =
     (if \<not> deflate_initialized r then (False, r)
      else let (init_ret, strm) = deflateInit2 Z (compression_level (cfg r))
                                    (- client_max_window_bits (cfg r));
               r1 = r\<lparr> deflate_initialized := False, deflate_stream := strm \<rparr>
           in if init_ret \<noteq> Z_OK then (False, r1)
              else (True, r1\<lparr> deflate_initialized := True \<rparr>))"

subsection \<open>txDeflate (lines 103-169)\<close>

text \<open>
  \<open>resize\<close> is \<^verbatim>\<open>std::vector::resize\<close>: the old elements stay, new ones are 0.
  \<open>txDeflate_attempt\<close> is the body of the \<^verbatim>\<open>for\<close> loop for one value of
  \<^verbatim>\<open>attempt\<close>: \<open>Retry\<close> is \<^verbatim>\<open>continue\<close>, \<open>Done b\<close> is \<^verbatim>\<open>return b\<close>. The casts
  \<^verbatim>\<open>static_cast<uInt>(in_len)\<close> and \<^verbatim>\<open>static_cast<uInt>(bound)\<close> keep the low
  32 bits.
\<close>

definition resize :: "byte list \<Rightarrow> nat \<Rightarrow> byte list" where
  "resize v n = take n v @ replicate (n - length v) 0"

datatype ('z, 'u) tx_attempt = Retry "('z, 'u) receiver" | Done bool "('z, 'u) receiver"

definition txDeflate_attempt ::
  "'z zlib \<Rightarrow> ('z, 'u) receiver \<Rightarrow> byte list \<Rightarrow> nat \<Rightarrow> ('z, 'u) tx_attempt" where
  "txDeflate_attempt Z r inp attempt =
     (let r1 = txResetDeflate Z r;
          extra = 64 * (attempt + 1);
          bound = deflateBound Z (deflate_stream r1) (length inp) + extra;
          buf = resize (tx_compressed_buf r1) bound;
          avail_in = length inp mod 2 ^ 32;
          avail_out = bound mod 2 ^ 32;
          (ret, consumed, written, strm) = deflate Z (deflate_stream r1) (take avail_in inp) avail_out;
          out = take avail_out written;
          avail_out' = avail_out - length out;
          r2 = r1\<lparr> deflate_stream := strm, tx_compressed_buf := out @ drop (length out) buf \<rparr>
      in if ret \<noteq> Z_OK then
           (if ret = Z_BUF_ERROR \<or> avail_out' = 0 then Retry r2 else Done False r2)
         else
           let produced = bound - avail_out' in
           if produced < 4 then Retry r2
           else
             let n = produced in
             if \<not> (tx_compressed_buf r2 ! (n - 4) = 0x00 \<and> tx_compressed_buf r2 ! (n - 3) = 0x00
                   \<and> tx_compressed_buf r2 ! (n - 2) = 0xFF \<and> tx_compressed_buf r2 ! (n - 1) = 0xFF)
             then Retry r2
             else
               let r3 = r2\<lparr> tx_payload_len := produced - 4 \<rparr> in
               if client_no_context_takeover (cfg r3) then
                 (let (ok, r4) = txReinitAfterNoContextTakeover Z r3
                  in if \<not> ok then Done False r4 else Done True r4)
               else Done True r3)"

function txDeflate_loop ::
  "'z zlib \<Rightarrow> ('z, 'u) receiver \<Rightarrow> byte list \<Rightarrow> nat \<Rightarrow> bool \<times> ('z, 'u) receiver" where
  "txDeflate_loop Z r inp attempt =
     (if attempt < 4 then
        (case txDeflate_attempt Z r inp attempt of
           Retry r' \<Rightarrow> txDeflate_loop Z r' inp (attempt + 1)
         | Done ok r' \<Rightarrow> (ok, r'))
      else (False, r))"
  by pat_completeness auto
termination
  by (relation "measure (\<lambda>(Z, r, inp, attempt). 4 - attempt)") auto

declare txDeflate_loop.simps [simp del]

definition txDeflate :: "'z zlib \<Rightarrow> ('z, 'u) receiver \<Rightarrow> byte list \<Rightarrow> bool \<times> ('z, 'u) receiver" where
  "txDeflate Z r inp =
     (if \<not> deflate_initialized r then (False, r) else txDeflate_loop Z r inp 0)"

subsection \<open>txPrepare (lines 193-215)\<close>

text \<open>
  The three out-parameters: \<open>payload_ptr\<close> says which buffer the pointer
  designates, \<open>payload_bytes\<close> are the \<open>payload_len\<close> bytes it points to.
\<close>

datatype payload_src = Original | Compressed

record tx_out =
  payload_ptr :: payload_src
  payload_len :: nat
  payload_bytes :: "byte list"
  do_compress :: bool

definition txPrepare ::
  "'z zlib \<Rightarrow> ('z, 'u) receiver \<Rightarrow> byte list \<Rightarrow> bool \<Rightarrow> bool \<times> tx_out \<times> ('z, 'u) receiver" where
  "txPrepare Z r original request_compress =
     (let raw = \<lparr> payload_ptr = Original, payload_len = length original,
                   payload_bytes = original, do_compress = False \<rparr>
      in if \<not> request_compress then (True, raw, r)
         else if \<not> enabled (cfg r) then (True, raw, r)
         else if \<not> deflate_initialized r then (True, raw, r)
         else let (ok, r1) = txDeflate Z r original
              in if \<not> ok then (True, raw, r1)
                 else (True,
                       \<lparr> payload_ptr = Compressed, payload_len = tx_payload_len r1,
                         payload_bytes = take (tx_payload_len r1) (tx_compressed_buf r1),
                         do_compress = True \<rparr>, r1))"

subsection \<open>rxInflate (lines 217-306)\<close>

text \<open>
  \<open>rxInflate_loop\<close> is the \<^verbatim>\<open>while (true)\<close> loop: \<open>next_in\<close> is the input not yet
  consumed (\<^verbatim>\<open>avail_in\<close> is its length), \<open>out\<close> the vector built so far; each
  round offers the 4096 bytes of \<^verbatim>\<open>tmp\<close>. The result is the return value, \<open>out\<close>
  and the stream.
\<close>

partial_function (option) rxInflate_loop ::
  "'z zlib \<Rightarrow> 'z \<Rightarrow> byte list \<Rightarrow> byte list \<Rightarrow> (bool \<times> byte list \<times> 'z) option" where
  "rxInflate_loop Z strm next_in out =
     (case inflate Z strm next_in 4096 of (ret, consumed, written, strm') \<Rightarrow>
        let tmp = take 4096 written;
            avail_out = 4096 - length tmp;
            next_in' = drop consumed next_in;
            avail_in = length next_in'
        in if ret = Z_BUF_ERROR then
             (if avail_out = 0 then rxInflate_loop Z strm' next_in' out
              else if avail_in = 0 then Some (True, out, strm')
              else Some (False, out, strm'))
           else if ret \<noteq> Z_OK \<and> ret \<noteq> Z_STREAM_END then Some (False, out, strm')
           else
             let produced = 4096 - avail_out;
                 out' = (if produced \<noteq> 0 then out @ tmp else out)
             in if ret = Z_STREAM_END then Some (True, out', strm')
                else if avail_in = 0 \<and> avail_out \<noteq> 0 then Some (True, out', strm')
                else rxInflate_loop Z strm' next_in' out')"

definition rxInflate ::
  "'z zlib \<Rightarrow> ('z, 'u) receiver \<Rightarrow> byte list \<Rightarrow> (bool \<times> byte list \<times> ('z, 'u) receiver) option" where
  "rxInflate Z r inp =
     (if \<not> enabled (cfg r) \<or> \<not> inflate_initialized r then Some (True, inp, r)
      else
        let src = inp @ [0x00, 0x00, 0xFF, 0xFF];
            strm = (if server_no_context_takeover (cfg r)
                    then inflateReset Z (inflate_stream r) else inflate_stream r);
            avail_in = length src mod 2 ^ 32
        in case rxInflate_loop Z strm (take avail_in src) [] of
             None \<Rightarrow> None
           | Some (ok, out, strm') \<Rightarrow> Some (ok, out, r\<lparr> inflate_stream := strm' \<rparr>))"

definition decompressMessage ::
  "'z zlib \<Rightarrow> ('z, 'u) receiver \<Rightarrow> byte list \<Rightarrow> (bool \<times> byte list \<times> ('z, 'u) receiver) option" where
  "decompressMessage Z r inp = rxInflate Z r inp"

definition rxMaybeResetAfterMessage :: "'z zlib \<Rightarrow> ('z, 'u) receiver \<Rightarrow> ('z, 'u) receiver" where
  "rxMaybeResetAfterMessage Z r =
     (if enabled (cfg r) \<and> server_no_context_takeover (cfg r) then rxResetInflate Z r else r)"

subsection \<open>Data and continuation frames (lines 403-549)\<close>

text \<open>
  \<open>reset_fragmentation\<close> is lines 475-479, \<open>continuation_deliver\<close> the \<^verbatim>\<open>switch\<close>
  on \<^verbatim>\<open>fragmented_opcode\<close> of lines 440-479, and \<open>data_deliver\<close> lines 527-548
  of \<^verbatim>\<open>handleDataFrame\<close>, each on the message the preceding lines produced.
\<close>

definition reset_fragmentation :: "('z, 'u) receiver \<Rightarrow> ('z, 'u) receiver" where
  "reset_fragmentation r =
     r\<lparr> message_in_progress := False, compressed_message_in_progress := False,
        fragmented_message := [], fragmented_opcode := 0 \<rparr>"

definition continuation_deliver ::
  "'u Utf8Validator \<Rightarrow> ('z, 'u) world \<Rightarrow> ('z, 'u) world" where
  "continuation_deliver V w =
     (let log = fst w; r = snd w in
      if fragmented_opcode r = 0x01 then
        (let (ok, u) =
               (if compressed_message_in_progress r then
                  (let (ok1, u1) = validateChunk V (reset V) (fragmented_message r)
                   in if ok1 then validateFinal V u1 else (False, u1))
                else validateFinal V (utf8Validator r))
         in if \<not> ok then
              emit (RxProtocolError 1007 ''Invalid UTF-8 in text message'')
                (log, r\<lparr> utf8Validator := reset V \<rparr>)
            else
              (let w' = emit (RxText (fragmented_message r)) (log, r\<lparr> utf8Validator := reset V \<rparr>)
               in (fst w', reset_fragmentation (snd w'))))
      else if fragmented_opcode r = 0x02 then
        (let w' = emit (RxBinary (fragmented_message r)) (log, r)
         in (fst w', reset_fragmentation (snd w')))
      else emit (RxProtocolError 1002 ''Unknown fragmented opcode'') (log, r))"

definition handleContinuationFrame ::
  "'z zlib \<Rightarrow> 'u Utf8Validator \<Rightarrow> ('z, 'u) world \<Rightarrow> byte list \<Rightarrow> bool \<Rightarrow> ('z, 'u) world option" where
  "handleContinuationFrame Z V w pl fin =
     (let log = fst w; r = snd w in
      if \<not> message_in_progress r then
        Some (emit (RxProtocolError 1002 ''continuation frame without initial frame'') w)
      else
        let r1 = r\<lparr> fragmented_message := fragmented_message r @ pl \<rparr>;
            (ok, r2) =
              (if \<not> compressed_message_in_progress r1 \<and> fragmented_opcode r1 = 0x01 then
                 (let (ok, u) = validateChunk V (utf8Validator r1) pl
                  in (ok, r1\<lparr> utf8Validator := u \<rparr>))
               else (True, r1))
        in if \<not> ok then
             Some (emit (RxProtocolError 1007 ''Invalid UTF-8 in text message'')
                     (log, r2\<lparr> utf8Validator := reset V \<rparr>))
           else if \<not> fin then Some (log, r2)
           else if compressed_message_in_progress r2 then
             (case decompressMessage Z r2 (fragmented_message r2) of
                None \<Rightarrow> None
              | Some (ok, output, r3) \<Rightarrow>
                  if \<not> ok then
                    Some (emit (RxProtocolError 1007 ''Decompression failed'')
                            (log, r3\<lparr> utf8Validator := reset V \<rparr>))
                  else
                    Some (continuation_deliver V
                            (log, rxMaybeResetAfterMessage Z (r3\<lparr> fragmented_message := output \<rparr>))))
           else Some (continuation_deliver V (log, r2)))"

definition data_deliver ::
  "'u Utf8Validator \<Rightarrow> ('z, 'u) world \<Rightarrow> byte list \<Rightarrow> int \<Rightarrow> ('z, 'u) world" where
  "data_deliver V w msg opcode =
     (let log = fst w; r = snd w in
      if opcode = 0x01 then
        (let (ok1, u1) = validateChunk V (reset V) msg
         in if \<not> ok1 then
              emit (RxProtocolError 1007 ''Invalid UTF-8 in text message'')
                (log, r\<lparr> utf8Validator := reset V \<rparr>)
            else
              let (ok2, u2) = validateFinal V u1
              in if \<not> ok2 then
                   emit (RxProtocolError 1007 ''Invalid UTF-8 in text message'')
                     (log, r\<lparr> utf8Validator := reset V \<rparr>)
                 else emit (RxText msg) (log, r\<lparr> utf8Validator := u2 \<rparr>))
      else if opcode = 0x02 then emit (RxBinary msg) w
      else emit (RxProtocolError 1002 ''Unsupported opcode'') w)"

definition handleDataFrame ::
  "'z zlib \<Rightarrow> 'u Utf8Validator \<Rightarrow> sinks \<Rightarrow> ('z, 'u) world \<Rightarrow> byte list \<Rightarrow> bool \<Rightarrow> int \<Rightarrow> bool
     \<Rightarrow> ('z, 'u) world option" where
  "handleDataFrame Z V S w pl fin opcode rsv1 =
     (let log = fst w; r = snd w in
      if message_in_progress r then
        Some (emit (RxProtocolError 1002
                ''Received new data frame when expecting continuation frame'') w)
      else
        let compressed = (rsv1 \<and> rxCompressionEnabled S log) in
        if \<not> fin then
          (let r1 = r\<lparr> message_in_progress := True, fragmented_opcode := opcode,
                       fragmented_message := pl,
                       compressed_message_in_progress := compressed \<rparr>
           in if opcode = 0x01 \<and> \<not> compressed_message_in_progress r1 then
                (let (ok, u) = validateChunk V (reset V) pl
                 in if \<not> ok then
                      Some (emit (RxProtocolError 1007 ''Invalid UTF-8 in text message'')
                              (log, r1\<lparr> utf8Validator := reset V \<rparr>))
                    else Some (log, r1\<lparr> utf8Validator := u \<rparr>))
              else Some (log, r1))
        else if compressed then
          (case decompressMessage Z r pl of
             None \<Rightarrow> None
           | Some (ok, decompressed, r1) \<Rightarrow>
               if \<not> ok then Some (emit (RxProtocolError 1007 ''Decompression failed'') (log, r1))
               else Some (data_deliver V (log, rxMaybeResetAfterMessage Z r1) decompressed opcode))
        else Some (data_deliver V w pl opcode))"

subsection \<open>Control frames (lines 551-610)\<close>

text \<open>\<open>be16\<close> is \<^verbatim>\<open>ntohs\<close> of two bytes copied from the wire.\<close>

definition be16 :: "byte \<Rightarrow> byte \<Rightarrow> nat" where
  "be16 b0 b1 = 256 * unat b0 + unat b1"

definition handleCloseFrame :: "('z, 'u) world \<Rightarrow> byte list \<Rightarrow> ('z, 'u) world" where
  "handleCloseFrame w pl =
     (let pl_len = length pl;
          (close_code, close_reason, protocol_error) =
            (if pl_len > 125 then (1002, [], True)
             else if pl_len = 1 then (1002, [], True)
             else if pl_len \<ge> 2 then
               (let received = be16 (pl ! 0) (pl ! 1);
                    (code1, err1) =
                      (if \<not> ((received \<ge> 1000 \<and> received \<le> 1011 \<and> received \<noteq> 1004
                               \<and> received \<noteq> 1005 \<and> received \<noteq> 1006)
                              \<or> (received \<ge> 3000 \<and> received \<le> 4999))
                       then (1002, True) else (received, False))
                in if pl_len > 2 then
                     (let reason_len = (if pl_len - 2 > 123 then 123 else pl_len - 2);
                          reason = take reason_len (drop 2 pl)
                      in if \<not> isValidUtf8 reason then (1002, [], True)
                         else (code1, reason, err1))
                   else (code1, [], err1))
             else (1000, [], False));
          reply_code = (if protocol_error then 1002 else close_code);
          reply_reason = (if protocol_error then [] else close_reason)
      in emit (RxClose reply_code reply_reason) w)"

definition handlePingFrame :: "('z, 'u) world \<Rightarrow> byte list \<Rightarrow> ('z, 'u) world" where
  "handlePingFrame w pl =
     (if length pl > 125
      then emit (RxProtocolError 1002 ''Control frame payload too large'') w
      else emit (RxPing pl) w)"

subsection \<open>onData (lines 308-401)\<close>

text \<open>
  \<open>be64\<close> is \<^verbatim>\<open>ntohll\<close> of eight bytes from the wire. \<open>size_max\<close> is the range
  of \<^verbatim>\<open>size_t\<close>; \<open>vector_max_size\<close> is \<^verbatim>\<open>max_size()\<close> of a byte vector, beyond
  which \<^verbatim>\<open>reserve\<close> throws \<^verbatim>\<open>std::length_error\<close>. \<^verbatim>\<open>evbuffer_pullup\<close> returns
  null for a size of 0.

  One round of the \<^verbatim>\<open>for (;;)\<close> loop is \<open>onData_step\<close>: \<open>Exit\<close> is \<^verbatim>\<open>return\<close> or
  \<^verbatim>\<open>break\<close> (nothing follows the loop), \<open>Drain w n\<close> reaches
  \<^verbatim>\<open>evbuffer_drain(buf, need)\<close> with \<open>n = need\<close> and goes round again. \<open>dispatch\<close>
  is the \<^verbatim>\<open>switch (opcode)\<close>. \<open>onData\<close> returns the world and the bytes left in
  the buffer, \<open>Some None\<close> when the exception leaves it.
\<close>

definition be64 :: "byte list \<Rightarrow> nat" where
  "be64 bs = foldl (\<lambda>acc b. 256 * acc + unat b) 0 bs"

definition size_max :: nat where
  "size_max = 2 ^ 64"

definition vector_max_size :: nat where
  "vector_max_size = 2 ^ 63 - 1"

datatype ('z, 'u) step =
    Exit "('z, 'u) world"
  | Throw_length_error
  | Drain "('z, 'u) world" nat

definition dispatch ::
  "'z zlib \<Rightarrow> 'u Utf8Validator \<Rightarrow> sinks \<Rightarrow> ('z, 'u) world \<Rightarrow> int \<Rightarrow> bool \<Rightarrow> bool \<Rightarrow> byte list \<Rightarrow> nat
     \<Rightarrow> ('z, 'u) step option" where
  "dispatch Z V S w opcode fin rsv1 pl need =
     (if opcode = 0x00 then
        (case handleContinuationFrame Z V w pl fin of
           None \<Rightarrow> None | Some w' \<Rightarrow> Some (Drain w' need))
      else if opcode = 0x01 \<or> opcode = 0x02 then
        (case handleDataFrame Z V S w pl fin opcode rsv1 of
           None \<Rightarrow> None | Some w' \<Rightarrow> Some (Drain w' need))
      else if opcode = 0x08 then Some (Drain (handleCloseFrame w pl) need)
      else if opcode = 0x09 then Some (Drain (handlePingFrame w pl) need)
      else if opcode = 0x0A then Some (Drain w need)
      else Some (Exit (emit (RxProtocolError 1002 ''Unsupported opcode'') w)))"

definition onData_step ::
  "'z zlib \<Rightarrow> 'u Utf8Validator \<Rightarrow> sinks \<Rightarrow> ('z, 'u) world \<Rightarrow> byte list \<Rightarrow> ('z, 'u) step option" where
  "onData_step Z V S w buf =
     (if rxIsTerminating S (fst w) then Some (Exit w)
      else
        let data_len = length buf in
        if data_len < 2 then Some (Exit w)
        else
          let hdr = take 14 buf;
              fin = (hdr ! 0 AND 0x80 \<noteq> 0);
              rsv1 = (hdr ! 0 AND 0x40 \<noteq> 0);
              rsv2 = (hdr ! 0 AND 0x20 \<noteq> 0);
              rsv3 = (hdr ! 0 AND 0x10 \<noteq> 0);
              opcode = hdr ! 0 AND 0x0F;
              mask = (hdr ! 1 AND 0x80 \<noteq> 0);
              len7 = unat (hdr ! 1 AND 0x7F)
          in
          if (\<not> rxCompressionEnabled S (fst w) \<and> rsv1) \<or> rsv2 \<or> rsv3 then
            Some (Exit (emit (RxProtocolError 1002 ''Unexpected RSV bits'') w))
          else if opcode AND 0x08 \<noteq> 0 \<and> \<not> fin then
            Some (Exit (emit (RxProtocolError 1002 ''Control frame fragmented'') w))
          else if mask then
            Some (Exit (emit (RxProtocolError 1002 ''Masked frame from server'') w))
          else if len7 = 126 \<and> data_len < 2 + 2 then Some (Exit w)
          else if len7 = 127 \<and> data_len < 2 + 8 then Some (Exit w)
          else
            let header_len = (if len7 = 126 then 2 + 2 else if len7 = 127 then 2 + 8 else 2);
                pl_len = (if len7 = 126 then be16 (hdr ! 2) (hdr ! 3)
                          else if len7 = 127 then be64 (take 8 (drop 2 hdr))
                          else len7)
            in
            if opcode AND 0x08 \<noteq> 0 \<and> pl_len > 125 then
              Some (Exit (emit (RxProtocolError 1002 ''Control frame payload too large'') w))
            else
              let need = (header_len + pl_len) mod size_max in
              if data_len < need then Some (Exit w)
              else if need = 0 then
                Some (Exit (emit (RxProtocolError 1002 ''Failed to pullup frame buffer'') w))
              else if pl_len > vector_max_size then Some Throw_length_error
              else
                dispatch Z V S w (uint opcode) fin rsv1 (take pl_len (drop header_len buf)) need)"

function onData ::
  "'z zlib \<Rightarrow> 'u Utf8Validator \<Rightarrow> sinks \<Rightarrow> ('z, 'u) world \<Rightarrow> byte list
     \<Rightarrow> (('z, 'u) world \<times> byte list) option option" where
  "onData Z V S w buf =
     (case onData_step Z V S w buf of
        None \<Rightarrow> None
      | Some (Exit w') \<Rightarrow> Some (Some (w', buf))
      | Some Throw_length_error \<Rightarrow> Some None
      | Some (Drain w' need) \<Rightarrow> onData Z V S w' (drop need buf))"
  by pat_completeness auto
termination
proof (relation "measure (\<lambda>(Z, V, S, w, buf). length buf)")
  show "wf (measure (\<lambda>(Z, V, S, w, buf). length buf))" by simp
next
  fix Z :: "'z zlib" and V :: "'u Utf8Validator" and S w buf x2 x31 x32
  assume "onData_step Z V S w buf = Some x2" "x2 = Drain x31 x32"
  then have st: "onData_step Z V S w buf = Some (Drain x31 x32)" by simp
  have "0 < x32 \<and> x32 \<le> length buf"
    using st
    by (auto simp add: onData_step_def dispatch_def Let_def split: if_splits option.splits)
  then have "0 < x32" "x32 \<le> length buf" by blast+
  then show "((Z, V, S, x31, drop x32 buf), Z, V, S, w, buf)
             \<in> measure (\<lambda>(Z, V, S, w, buf). length buf)"
    by simp
qed

declare onData.simps [simp del]

subsection \<open>The spec's close-code rule\<close>

text \<open>
  Written from the spec's words (4.F, close frame parsing), to be compared with
  \<open>handleCloseFrame\<close>: the permitted codes, and the pair a close payload stands
  for. Valid UTF-8 is what \<open>isValidUtf8\<close> accepts (see C9).
\<close>

definition valid_close_code :: "nat \<Rightarrow> bool" where
  "valid_close_code c =
     ((1000 \<le> c \<and> c \<le> 1011 \<and> c \<noteq> 1004 \<and> c \<noteq> 1005 \<and> c \<noteq> 1006) \<or> (3000 \<le> c \<and> c \<le> 4999))"

fun sanitize_close :: "byte list \<Rightarrow> nat \<times> byte list" where
  "sanitize_close [] = (1000, [])"
| "sanitize_close [b0] = (1002, [])"
| "sanitize_close (b0 # b1 # reason) =
     (let code = 256 * unat b0 + unat b1
      in if \<not> valid_close_code code \<or> \<not> isValidUtf8 reason then (1002, [])
         else (code, reason))"

subsection \<open>Instances on which the model is run\<close>

text \<open>
  Concrete parameters used to evaluate the model. \<open>toy_zlib\<close> is a stand-in
  for zlib with the same interface: its stream state is the input seen since
  the last reset, and a block is the length of that history, the input and the
  sync-flush tail 00 00 FF FF; it needs 5 bytes more than the input.
  \<open>buffering_validator\<close> keeps the chunks, rejects a chunk holding a byte that
  never occurs in UTF-8 and checks the whole text at the end. \<open>quiet_sinks\<close>
  reports termination once a protocol error or a close has been delivered.
\<close>

definition toy_zlib :: "(byte list) zlib" where
  "toy_zlib = \<lparr>
     inflateInit2 = (\<lambda>wb. (Z_OK, [])),
     deflateInit2 = (\<lambda>lvl wb. (Z_OK, [])),
     inflateReset = (\<lambda>z. []),
     deflateReset = (\<lambda>z. []),
     deflateBound = (\<lambda>z n. n + 5),
     deflate = (\<lambda>z inp avail_out.
        if length inp + 5 \<le> avail_out
        then (Z_OK, length inp, of_nat (length z) # inp @ [0x00, 0x00, 0xFF, 0xFF], z @ inp)
        else (Z_BUF_ERROR, 0, [], z)),
     inflate = (\<lambda>z inp avail_out.
        if length inp < 5 then (Z_BUF_ERROR, 0, [], z)
        else if hd inp \<noteq> of_nat (length z) then (- 3, 0, [], z)
        else (Z_OK, length inp, take avail_out (take (length inp - 5) (tl inp)),
              z @ take (length inp - 5) (tl inp)))
   \<rparr>"

definition buffering_validator :: "(byte list) Utf8Validator" where
  "buffering_validator = \<lparr>
     reset = [],
     validateChunk = (\<lambda>u c. (list_all (\<lambda>b. b \<noteq> 0xC0 \<and> b \<noteq> 0xC1 \<and> b < 0xF5) c, u @ c)),
     validateFinal = (\<lambda>u. (isValidUtf8 u, u))
   \<rparr>"

definition is_fatal :: "sink_event \<Rightarrow> bool" where
  "is_fatal e = (case e of RxProtocolError c m \<Rightarrow> True | RxClose c m \<Rightarrow> True | _ \<Rightarrow> False)"

definition quiet_sinks :: "bool \<Rightarrow> sinks" where
  "quiet_sinks negotiated = \<lparr>
     rxCompressionEnabled = (\<lambda>log. negotiated),
     rxIsTerminating = (\<lambda>log. list_ex is_fatal log)
   \<rparr>"

definition receiver0 :: "(byte list, byte list) receiver" where
  "receiver0 = \<lparr> cfg = default_cfg, inflate_stream = [], deflate_stream = [],
     inflate_initialized = False, deflate_initialized = False,
     tx_compressed_buf = [], tx_payload_len = 0,
     message_in_progress = False, compressed_message_in_progress = False,
     fragmented_opcode = 0, fragmented_message = [], utf8Validator = [] \<rparr>"

text \<open>
  \<open>receiver1\<close> is the receiver after \<^verbatim>\<open>initializeCompression\<close> with the
  extension enabled; \<open>receiver_mid\<close> has received the first fragment \<open>hi\<close> of a
  text message.
\<close>

definition receiver1 :: "(byte list, byte list) receiver" where
  "receiver1 = receiver0\<lparr> cfg := default_cfg\<lparr> enabled := True \<rparr>,
     inflate_initialized := True, deflate_initialized := True \<rparr>"

definition receiver_mid :: "(byte list, byte list) receiver" where
  "receiver_mid = receiver0\<lparr> message_in_progress := True, fragmented_opcode := 1,
     fragmented_message := [0x68, 0x69], utf8Validator := [0x68, 0x69] \<rparr>"

subsection \<open>The frame header, as RFC 6455 lays it out\<close>

text \<open>
  The fields of the frame at the head of a buffer, written from the spec (4.C):
  FIN, RSV1-3 and the opcode in the first byte, MASK and the 7-bit length in the
  second, then 2 or 8 bytes of extended length when the 7-bit length is 126 or
  127. A control opcode has the high bit of the 4-bit opcode set.
  \<open>header_buffered\<close> and \<open>frame_buffered\<close> say that the whole header, and the
  whole frame, are in the buffer.
\<close>

definition frame_fin :: "byte list \<Rightarrow> bool" where
  "frame_fin buf = (buf ! 0 AND 0x80 \<noteq> 0)"

definition frame_rsv1 :: "byte list \<Rightarrow> bool" where
  "frame_rsv1 buf = (buf ! 0 AND 0x40 \<noteq> 0)"

definition frame_rsv2 :: "byte list \<Rightarrow> bool" where
  "frame_rsv2 buf = (buf ! 0 AND 0x20 \<noteq> 0)"

definition frame_rsv3 :: "byte list \<Rightarrow> bool" where
  "frame_rsv3 buf = (buf ! 0 AND 0x10 \<noteq> 0)"

definition frame_opcode :: "byte list \<Rightarrow> nat" where
  "frame_opcode buf = unat (buf ! 0 AND 0x0F)"

definition frame_control :: "byte list \<Rightarrow> bool" where
  "frame_control buf = (buf ! 0 AND 0x08 \<noteq> 0)"

definition frame_masked :: "byte list \<Rightarrow> bool" where
  "frame_masked buf = (buf ! 1 AND 0x80 \<noteq> 0)"

definition frame_len7 :: "byte list \<Rightarrow> nat" where
  "frame_len7 buf = unat (buf ! 1 AND 0x7F)"

definition frame_header_len :: "byte list \<Rightarrow> nat" where
  "frame_header_len buf =
     (if frame_len7 buf = 126 then 4 else if frame_len7 buf = 127 then 10 else 2)"

definition frame_payload_len :: "byte list \<Rightarrow> nat" where
  "frame_payload_len buf =
     (if frame_len7 buf = 126 then be16 (buf ! 2) (buf ! 3)
      else if frame_len7 buf = 127 then be64 (take 8 (drop 2 buf))
      else frame_len7 buf)"

definition frame_payload :: "byte list \<Rightarrow> byte list" where
  "frame_payload buf = take (frame_payload_len buf) (drop (frame_header_len buf) buf)"

definition header_buffered :: "byte list \<Rightarrow> bool" where
  "header_buffered buf = (2 \<le> length buf \<and> frame_header_len buf \<le> length buf)"

definition frame_buffered :: "byte list \<Rightarrow> bool" where
  "frame_buffered buf =
     (header_buffered buf \<and> frame_header_len buf + frame_payload_len buf \<le> length buf
      \<and> length buf < 2 ^ 63)"

text \<open>A frame that passes the six header rules of the spec (4.C).\<close>

definition header_ok :: "sinks \<Rightarrow> sink_event list \<Rightarrow> byte list \<Rightarrow> bool" where
  "header_ok S log buf =
     (\<not> frame_rsv2 buf \<and> \<not> frame_rsv3 buf \<and> (frame_rsv1 buf \<longrightarrow> rxCompressionEnabled S log)
      \<and> \<not> frame_masked buf \<and> (frame_control buf \<longrightarrow> frame_fin buf)
      \<and> (frame_control buf \<longrightarrow> frame_payload_len buf \<le> 125))"


text \<open>
  A compression buffer whose bytes from index \<open>2 ^ 32 - 1\<close> on are all zero:
  \<open>deflate\<close> writes at most \<open>avail_out\<close> bytes, which is a \<^verbatim>\<open>uInt\<close>, so it never
  writes there, and \<open>resize\<close> fills with zeros. The empty buffer of a fresh
  receiver is one.
\<close>

definition zero_beyond :: "byte list \<Rightarrow> bool" where
  "zero_beyond b = (\<forall>i. 2 ^ 32 - 1 \<le> i \<and> i < length b \<longrightarrow> b ! i = 0)"

subsection \<open>Successive outbound messages\<close>

text \<open>
  zlib is a library the receiver is linked with, so what \<open>deflateReset\<close> does is
  a condition on the parameter \<open>Z\<close>: \<open>reset_forgets\<close> says that resetting a stream
  which was reset and then used for one \<open>deflate\<close> call gives the stream the first
  reset gave (zlib documents \<open>deflateReset\<close> as equivalent to \<open>deflateEnd\<close> followed
  by \<open>deflateInit\<close>). \<open>tx_history Z r ms\<close> is the receiver after \<open>txDeflate\<close> has
  been called on the messages \<open>ms\<close> in turn, and \<open>tx_wire\<close> is what a call of
  \<open>txDeflate\<close> hands to the sender: the first \<open>tx_payload_len\<close> bytes of the
  buffer when it returns true, nothing otherwise. \<open>tx_equiv\<close> relates two
  receivers that \<open>txDeflate\<close> cannot tell apart, and \<open>tx_inv\<close> holds of every
  receiver that \<open>initializeCompression\<close> has set up.
\<close>

definition reset_forgets :: "'z zlib \<Rightarrow> bool" where
  "reset_forgets Z =
     (\<forall>z inp n. deflateReset Z (snd (snd (snd (deflate Z (deflateReset Z z) inp n))))
                  = deflateReset Z z)"

definition tx_history :: "'z zlib \<Rightarrow> ('z, 'u) receiver \<Rightarrow> byte list list \<Rightarrow> ('z, 'u) receiver" where
  "tx_history Z r ms = foldl (\<lambda>r m. snd (txDeflate Z r m)) r ms"

definition tx_wire :: "bool \<times> ('z, 'u) receiver \<Rightarrow> byte list option" where
  "tx_wire res =
     (if fst res then Some (take (tx_payload_len (snd res)) (tx_compressed_buf (snd res)))
      else None)"

definition tx_equiv :: "'z zlib \<Rightarrow> ('z, 'u) receiver \<Rightarrow> ('z, 'u) receiver \<Rightarrow> bool" where
  "tx_equiv Z a b =
     (cfg a = cfg b \<and> deflate_initialized a = deflate_initialized b
      \<and> deflateReset Z (deflate_stream a) = deflateReset Z (deflate_stream b)
      \<and> zero_beyond (tx_compressed_buf a) \<and> zero_beyond (tx_compressed_buf b))"


definition tx_inv :: "'z zlib \<Rightarrow> ('z, 'u) receiver \<Rightarrow> bool" where
  "tx_inv Z r =
     (zero_beyond (tx_compressed_buf r)
      \<and> (deflate_initialized r \<longrightarrow>
           fst (deflateInit2 Z (compression_level (cfg r)) (- client_max_window_bits (cfg r))) = Z_OK
           \<and> deflateReset Z (snd (deflateInit2 Z (compression_level (cfg r))
                                    (- client_max_window_bits (cfg r))))
               = deflateReset Z (deflate_stream r)))"

subsection \<open>A text message, frame by frame\<close>





section \<open>Proofs\<close>

subsection \<open>Facts about bytes\<close>

lemma byte_cases: "(\<forall>b::byte. P b) = list_all (\<lambda>n. P (of_nat n)) [0..<256]"
  apply (auto simp: list_all_iff)
  subgoal for b
    apply (drule bspec[of _ _ "unat b"])
    using unsigned_less[of b, where 'a=nat] by simp_all
  done

lemma mask_E0: "((b::byte) AND 0xE0 = 0xC0) = (192 \<le> unat b \<and> unat b \<le> 223)"
proof -
  have "\<forall>b::byte. (b AND 0xE0 = 0xC0) = (192 \<le> unat b \<and> unat b \<le> 223)"
    unfolding byte_cases by code_simp
  thus ?thesis by blast
qed

lemma mask_F0: "((b::byte) AND 0xF0 = 0xE0) = (224 \<le> unat b \<and> unat b \<le> 239)"
proof -
  have "\<forall>b::byte. (b AND 0xF0 = 0xE0) = (224 \<le> unat b \<and> unat b \<le> 239)"
    unfolding byte_cases by code_simp
  thus ?thesis by blast
qed

lemma mask_F8: "((b::byte) AND 0xF8 = 0xF0) = (240 \<le> unat b \<and> unat b \<le> 247)"
proof -
  have "\<forall>b::byte. (b AND 0xF8 = 0xF0) = (240 \<le> unat b \<and> unat b \<le> 247)"
    unfolding byte_cases by code_simp
  thus ?thesis by blast
qed

lemma mask_C0: "((b::byte) AND 0xC0 = 0x80) = (128 \<le> unat b \<and> unat b \<le> 191)"
proof -
  have "\<forall>b::byte. (b AND 0xC0 = 0x80) = (128 \<le> unat b \<and> unat b \<le> 191)"
    unfolding byte_cases by code_simp
  thus ?thesis by blast
qed


lemma byte_le_iff: "((a::byte) \<le> b) = (unat a \<le> unat b)"
  by (rule word_le_nat_alt)
lemma byte_less_iff: "((a::byte) < b) = (unat a < unat b)"
  by (rule word_less_nat_alt)
lemma byte_eq_consts:
  "((a::byte) = 0xE0) = (unat a = 224)" "((a::byte) = 0xED) = (unat a = 237)"
  "((a::byte) = 0xF0) = (unat a = 240)" "((a::byte) = 0xF4) = (unat a = 244)"
  by (simp_all add: word_unat_eq_iff)
lemma mask_F0u: "(unat ((b::byte) AND 0xF0) = 224) = (224 \<le> unat b \<and> unat b \<le> 239)"
  using mask_F0[of b] by (simp add: word_unat_eq_iff)
lemma mask_F8u: "(unat ((b::byte) AND 0xF8) = 240) = (240 \<le> unat b \<and> unat b \<le> 247)"
  using mask_F8[of b] by (simp add: word_unat_eq_iff)

lemmas byte_arith = mask_E0 mask_F0 mask_F8 mask_C0 mask_F0u mask_F8u
  byte_le_iff byte_less_iff byte_eq_consts is_cont_def

lemma step_ascii: "i < length bytes \<Longrightarrow> unat (bytes ! i) \<le> 127 \<Longrightarrow>
   utf8_loop bytes i = utf8_loop bytes (i + 1)"
  apply (subst utf8_loop.simps)
  by (simp add: byte_arith)

lemma step_bad1: "i < length bytes \<Longrightarrow> 128 \<le> unat (bytes ! i) \<Longrightarrow> unat (bytes ! i) \<le> 191 \<Longrightarrow>
   utf8_loop bytes i = False"
  apply (subst utf8_loop.simps)
  apply (simp add: byte_arith split del: if_split)
  done
lemma step_bad2: "i < length bytes \<Longrightarrow> 245 \<le> unat (bytes ! i) \<Longrightarrow>
   utf8_loop bytes i = False"
  apply (subst utf8_loop.simps)
  apply (simp add: byte_arith split del: if_split)
  done
lemma step_bad3: "i < length bytes \<Longrightarrow> 192 \<le> unat (bytes ! i) \<Longrightarrow> unat (bytes ! i) \<le> 193 \<Longrightarrow>
   utf8_loop bytes i = False"
  apply (subst utf8_loop.simps)
  apply (simp add: byte_arith split del: if_split)
  done
lemma step_two: "i < length bytes \<Longrightarrow> 194 \<le> unat (bytes ! i) \<Longrightarrow> unat (bytes ! i) \<le> 223 \<Longrightarrow>
   utf8_loop bytes i = (i + 1 < length bytes \<and> is_cont (bytes ! (i + 1)) \<and> utf8_loop bytes (i + 2))"
  apply (subst utf8_loop.simps)
  apply (simp only: mask_E0 mask_F0 mask_F8 mask_C0 cong: if_cong)
  apply (simp add: byte_le_iff byte_less_iff byte_eq_consts is_cont_def cong: if_cong split del: if_split)
  apply (auto simp: not_le not_less)
  done

lemma step_three: "i < length bytes \<Longrightarrow> 224 \<le> unat (bytes ! i) \<Longrightarrow> unat (bytes ! i) \<le> 239 \<Longrightarrow>
   utf8_loop bytes i = (i + 2 < length bytes \<and> is_cont (bytes ! (i + 1)) \<and> is_cont (bytes ! (i + 2))
      \<and> \<not> (unat (bytes ! i) = 224 \<and> unat (bytes ! (i + 1)) < 160)
      \<and> \<not> (unat (bytes ! i) = 237 \<and> 160 \<le> unat (bytes ! (i + 1)))
      \<and> utf8_loop bytes (i + 3))"
  apply (subst utf8_loop.simps)
  apply (simp only: mask_E0 mask_F0 mask_F8 mask_C0 cong: if_cong)
  apply (simp add: byte_le_iff byte_less_iff byte_eq_consts is_cont_def cong: if_cong split del: if_split)
  apply (auto simp: not_le not_less)
  done

lemma step_four: "i < length bytes \<Longrightarrow> 240 \<le> unat (bytes ! i) \<Longrightarrow> unat (bytes ! i) \<le> 244 \<Longrightarrow>
   utf8_loop bytes i = (i + 3 < length bytes \<and> is_cont (bytes ! (i + 1)) \<and> is_cont (bytes ! (i + 2))
      \<and> is_cont (bytes ! (i + 3))
      \<and> \<not> (unat (bytes ! i) = 240 \<and> unat (bytes ! (i + 1)) < 144)
      \<and> \<not> (unat (bytes ! i) = 244 \<and> 143 < unat (bytes ! (i + 1)))
      \<and> utf8_loop bytes (i + 4))"
  apply (subst utf8_loop.simps)
  apply (simp only: mask_E0 mask_F0 mask_F8 mask_C0 cong: if_cong)
  apply (simp add: byte_le_iff byte_less_iff byte_eq_consts is_cont_def cong: if_cong split del: if_split)
  apply (auto simp: not_le not_less)
  done

lemma step_end: "\<not> i < length bytes \<Longrightarrow> utf8_loop bytes i = True"
  by (subst utf8_loop.simps) simp

subsection \<open>The loop of isValidUtf8 as a recursion on the remaining bytes\<close>

lemma utf8_loop_ok: "utf8_loop bs i = utf8_ok (drop i bs)"
proof (induction "length bs - i" arbitrary: i rule: less_induct)
  case less
  show ?case
  proof (cases "i < length bs")
    case False
    then show ?thesis by (simp add: step_end)
  next
    case True
    have IH: "\<And>k. 0 < k \<Longrightarrow> utf8_loop bs (i + k) = utf8_ok (drop (i + k) bs)"
      using less[of "i + _"] True by simp
    have d: "\<And>j. drop j bs = (if j < length bs then bs ! j # drop (j + 1) bs else [])"
      by (simp add: Cons_nth_drop_Suc)
    have d0: "drop i bs = bs ! i # drop (i + 1) bs" using True d[of i] by simp
    have e3: "i + 3 = Suc (Suc (Suc i))" and e4: "i + 4 = Suc (Suc (Suc (Suc i)))" by simp_all
    define n where "n = unat (bs ! i)"
    consider (ascii) "n \<le> 127" | (bad1) "128 \<le> n \<and> n \<le> 191" | (bad3) "192 \<le> n \<and> n \<le> 193"
      | (bad2) "245 \<le> n"
      | (two) "194 \<le> n \<and> n \<le> 223" | (three) "224 \<le> n \<and> n \<le> 239"
      | (four) "240 \<le> n \<and> n \<le> 244"
      by linarith
    then show ?thesis
    proof cases
      case ascii
      then show ?thesis using True IH[of 1]
        by (simp add: step_ascii n_def d0)
    next
      case bad1
      then show ?thesis using True
        by (simp add: step_bad1 n_def d0)
    next
      case bad3
      then show ?thesis using True
        by (simp add: step_bad3 n_def d0)
    next
      case bad2
      then show ?thesis using True
        by (simp add: step_bad2 n_def d0)
    next
      case two
      then have "utf8_loop bs i = (i + 1 < length bs \<and> is_cont (bs ! (i + 1)) \<and> utf8_loop bs (i + 2))"
        using True by (simp add: step_two n_def)
      moreover have "utf8_ok (drop i bs) = (i + 1 < length bs \<and> is_cont (bs ! (i + 1)) \<and> utf8_ok (drop (i + 2) bs))"
        apply (subst d0)
        apply (subst d[of "i + 1"])
        using two by (simp add: n_def add.assoc)
      ultimately show ?thesis using IH[of 2] by simp
    next
      case three
      then have "utf8_loop bs i = (i + 2 < length bs \<and> is_cont (bs ! (i + 1)) \<and> is_cont (bs ! (i + 2))
      \<and> \<not> (unat (bs ! i) = 224 \<and> unat (bs ! (i + 1)) < 160)
      \<and> \<not> (unat (bs ! i) = 237 \<and> 160 \<le> unat (bs ! (i + 1)))
      \<and> utf8_loop bs (i + 3))"
        using True by (simp add: step_three n_def)
      moreover have "utf8_ok (drop i bs) = (i + 2 < length bs \<and> is_cont (bs ! (i + 1)) \<and> is_cont (bs ! (i + 2))
      \<and> \<not> (unat (bs ! i) = 224 \<and> unat (bs ! (i + 1)) < 160)
      \<and> \<not> (unat (bs ! i) = 237 \<and> 160 \<le> unat (bs ! (i + 1)))
      \<and> utf8_ok (drop (i + 3) bs))"
        apply (subst d0)
        apply (subst d[of "i + 1"])
        apply (subst d[of "i + 1 + 1"])
        using three by (auto simp add: n_def add.assoc e3)
      ultimately show ?thesis using IH[of 3] by simp
    next
      case four
      then have "utf8_loop bs i = (i + 3 < length bs \<and> is_cont (bs ! (i + 1)) \<and> is_cont (bs ! (i + 2))
      \<and> is_cont (bs ! (i + 3))
      \<and> \<not> (unat (bs ! i) = 240 \<and> unat (bs ! (i + 1)) < 144)
      \<and> \<not> (unat (bs ! i) = 244 \<and> 143 < unat (bs ! (i + 1)))
      \<and> utf8_loop bs (i + 4))"
        using True by (simp add: step_four n_def)
      moreover have "utf8_ok (drop i bs) = (i + 3 < length bs \<and> is_cont (bs ! (i + 1)) \<and> is_cont (bs ! (i + 2))
      \<and> is_cont (bs ! (i + 3))
      \<and> \<not> (unat (bs ! i) = 240 \<and> unat (bs ! (i + 1)) < 144)
      \<and> \<not> (unat (bs ! i) = 244 \<and> 143 < unat (bs ! (i + 1)))
      \<and> utf8_ok (drop (i + 4) bs))"
        apply (subst d0)
        apply (subst d[of "i + 1"])
        apply (subst d[of "i + 1 + 1"])
        apply (subst d[of "i + 1 + 1 + 1"])
        using four by (auto simp add: n_def add.assoc e3 e4)
      ultimately show ?thesis using IH[of 4] by simp
    qed
  qed
qed

subsection \<open>Encodings of scalar values are accepted, and nothing else is\<close>

lemma unat_byte_of_nat: "k < 256 \<Longrightarrow> unat (of_nat k :: byte) = k"
  by (simp add: unat_of_nat)

lemma digits3:
  fixes c :: nat
  shows "c = 4096 * (c div 4096) + 64 * (c div 64 mod 64) + c mod 64"
proof -
  have "c div 4096 = c div 64 div 64" by (simp add: div_mult2_eq)
  then have "c div 64 = 64 * (c div 4096) + c div 64 mod 64" by simp
  moreover have "c = 64 * (c div 64) + c mod 64" by simp
  ultimately show ?thesis by linarith
qed

lemma digits4:
  fixes c :: nat
  shows "c = 262144 * (c div 262144) + 4096 * (c div 4096 mod 64) + 64 * (c div 64 mod 64) + c mod 64"
proof -
  have "c div 262144 = c div 4096 div 64" by (simp add: div_mult2_eq)
  then have "c div 4096 = 64 * (c div 262144) + c div 4096 mod 64" by simp
  then show ?thesis using digits3[of c] by linarith
qed

lemma enc1: "c < 128 \<Longrightarrow> utf8_ok (utf8_encode c @ rest) = utf8_ok rest"
  by (simp add: utf8_encode_def unat_byte_of_nat)

lemma enc2:
  assumes "128 \<le> c" "c < 2048"
  shows "utf8_ok (utf8_encode c @ rest) = utf8_ok rest"
proof -
  define B0 :: byte where "B0 = of_nat (192 + c div 64)"
  define r where "r = c mod 64"
  define B1 :: byte where "B1 = of_nat (128 + r)"
  have q: "2 \<le> c div 64" "c div 64 \<le> 31" using assms by linarith+
  have r: "r < 64" unfolding r_def by simp
  have b0: "unat B0 = 192 + c div 64"
    unfolding B0_def using q by (intro unat_byte_of_nat) linarith
  have b1: "unat B1 = 128 + r"
    unfolding B1_def using r by (intro unat_byte_of_nat) linarith
  have e: "utf8_encode c = [B0, B1]"
    unfolding B0_def B1_def r_def utf8_encode_def using assms by simp
  show ?thesis unfolding e using q r
    by (auto simp add: b0 b1 is_cont_def)
qed

lemma enc3:
  assumes "2048 \<le> c" "c < 65536" "c < 55296 \<or> 57343 < c"
  shows "utf8_ok (utf8_encode c @ rest) = utf8_ok rest"
proof -
  define q where "q = c div 4096"
  define m where "m = c div 64 mod 64"
  define r where "r = c mod 64"
  define B0 :: byte where "B0 = of_nat (224 + q)"
  define B1 :: byte where "B1 = of_nat (128 + m)"
  define B2 :: byte where "B2 = of_nat (128 + r)"
  have c: "c = 4096 * q + 64 * m + r" unfolding q_def m_def r_def by (rule digits3)
  have m: "m < 64" and r: "r < 64" unfolding m_def r_def by simp_all
  have q: "q \<le> 15" using assms(2) c by linarith
  have ov: "q = 0 \<longrightarrow> 32 \<le> m" using assms(1) c r by linarith
  have su: "q = 13 \<longrightarrow> m < 32" using assms(3) c r m by linarith
  have b0: "unat B0 = 224 + q"
    unfolding B0_def using q by (intro unat_byte_of_nat) linarith
  have b1: "unat B1 = 128 + m"
    unfolding B1_def using m by (intro unat_byte_of_nat) linarith
  have b2: "unat B2 = 128 + r"
    unfolding B2_def using r by (intro unat_byte_of_nat) linarith
  have e: "utf8_encode c = [B0, B1, B2]"
    unfolding B0_def B1_def B2_def q_def m_def r_def utf8_encode_def using assms by simp
  show ?thesis unfolding e using q m r ov su
    by (auto simp add: b0 b1 b2 is_cont_def)
qed

lemma enc4:
  assumes "65536 \<le> c" "c \<le> 1114111"
  shows "utf8_ok (utf8_encode c @ rest) = utf8_ok rest"
proof -
  define q where "q = c div 262144"
  define m1 where "m1 = c div 4096 mod 64"
  define m where "m = c div 64 mod 64"
  define r where "r = c mod 64"
  define B0 :: byte where "B0 = of_nat (240 + q)"
  define B1 :: byte where "B1 = of_nat (128 + m1)"
  define B2 :: byte where "B2 = of_nat (128 + m)"
  define B3 :: byte where "B3 = of_nat (128 + r)"
  have c: "c = 262144 * q + 4096 * m1 + 64 * m + r"
    unfolding q_def m1_def m_def r_def by (rule digits4)
  have m1: "m1 < 64" and m: "m < 64" and r: "r < 64" unfolding m1_def m_def r_def by simp_all
  have q: "q \<le> 4" using assms(2) c by linarith
  have ov: "q = 0 \<longrightarrow> 16 \<le> m1" using assms(1) c m r by linarith
  have su: "q = 4 \<longrightarrow> m1 < 16" using assms(2) c by linarith
  have b0: "unat B0 = 240 + q"
    unfolding B0_def using q by (intro unat_byte_of_nat) linarith
  have b1: "unat B1 = 128 + m1"
    unfolding B1_def using m1 by (intro unat_byte_of_nat) linarith
  have b2: "unat B2 = 128 + m"
    unfolding B2_def using m by (intro unat_byte_of_nat) linarith
  have b3: "unat B3 = 128 + r"
    unfolding B3_def using r by (intro unat_byte_of_nat) linarith
  have e: "utf8_encode c = [B0, B1, B2, B3]"
    unfolding B0_def B1_def B2_def B3_def q_def m1_def m_def r_def utf8_encode_def using assms by simp
  show ?thesis unfolding e using q m1 m r ov su
    by (auto simp add: b0 b1 b2 b3 is_cont_def)
qed

lemma enc_ok: "is_scalar c \<Longrightarrow> utf8_ok (utf8_encode c @ rest) = utf8_ok rest"
  using enc1[of c rest] enc2[of c rest] enc3[of c rest] enc4[of c rest]
  unfolding is_scalar_def by linarith

lemma enc_concat:
  "list_all is_scalar cps \<Longrightarrow> utf8_ok (concat (map utf8_encode cps) @ s) = utf8_ok s"
  by (induction cps) (simp_all add: enc_ok)

lemma dec1: "unat (b0::byte) \<le> 127 \<Longrightarrow> \<exists>c. is_scalar c \<and> utf8_encode c = [b0]"
  by (rule exI[of _ "unat b0"]) (simp add: is_scalar_def utf8_encode_def)

lemma mod64: "r < 64 \<Longrightarrow> (64 * k + r) mod 64 = (r::nat)"
  by simp
lemma div64: "r < 64 \<Longrightarrow> (64 * k + r) div 64 = (k::nat)"
  by simp

lemma dec2:
  assumes "194 \<le> unat (b0::byte)" "unat b0 \<le> 223" "is_cont b1"
  shows "\<exists>c. is_scalar c \<and> utf8_encode c = [b0, b1]"
proof -
  define a where "a = unat b0 - 192"
  define r where "r = unat b1 - 128"
  define c where "c = 64 * a + r"
  have a: "2 \<le> a" "a \<le> 31" "192 + a = unat b0" using assms unfolding a_def by linarith+
  have r: "r < 64" "128 + r = unat b1" using assms(3) unfolding r_def is_cont_def by linarith+
  have d: "c div 64 = a" "c mod 64 = r" unfolding c_def using r(1) by simp_all
  have rng: "128 \<le> c" "c < 2048" unfolding c_def using a r by linarith+
  have "utf8_encode c = [b0, b1]"
    unfolding utf8_encode_def using rng by (simp add: d a(3) r(2) del: of_nat_add)
  moreover have "is_scalar c" unfolding is_scalar_def using rng by linarith
  ultimately show ?thesis by blast
qed

lemma dec3:
  assumes "224 \<le> unat (b0::byte)" "unat b0 \<le> 239" "is_cont b1" "is_cont b2"
    "\<not> (unat b0 = 224 \<and> unat b1 < 160)" "\<not> (unat b0 = 237 \<and> 160 \<le> unat b1)"
  shows "\<exists>c. is_scalar c \<and> utf8_encode c = [b0, b1, b2]"
proof -
  define a where "a = unat b0 - 224"
  define m where "m = unat b1 - 128"
  define r where "r = unat b2 - 128"
  define c where "c = 4096 * a + 64 * m + r"
  have a: "a \<le> 15" "224 + a = unat b0" using assms unfolding a_def by linarith+
  have m: "m < 64" "128 + m = unat b1" using assms(3) unfolding m_def is_cont_def by linarith+
  have r: "r < 64" "128 + r = unat b2" using assms(4) unfolding r_def is_cont_def by linarith+
  have ov: "a = 0 \<longrightarrow> 32 \<le> m" using assms(5) a(2) m(2) by linarith
  have su: "a = 13 \<longrightarrow> m < 32" using assms(6) a(2) m(2) by linarith
  have c64: "c = 64 * (64 * a + m) + r" unfolding c_def by simp
  have d1: "c mod 64 = r" "c div 64 = 64 * a + m"
    unfolding c64 using r(1) by (rule mod64, rule div64)
  have d2: "c div 64 mod 64 = m" unfolding d1 using m(1) by (rule mod64)
  have "c div 4096 = c div 64 div 64" by (simp add: div_mult2_eq)
  then have d3: "c div 4096 = a" unfolding d1 using m(1) by (simp only: div64)
  have rng12: "2048 \<le> c" "c < 65536"
    unfolding c_def using a m r ov su by linarith+
  have lo: "a \<le> 13 \<longrightarrow> c < 55296" unfolding c_def using m r su by linarith
  have hi: "14 \<le> a \<longrightarrow> 57343 < c" unfolding c_def by linarith
  have rng3: "c < 55296 \<or> 57343 < c" using lo hi by (cases "a \<le> 13") simp_all
  note rng = rng12 rng3
  have "utf8_encode c = [b0, b1, b2]"
    unfolding utf8_encode_def using rng by (simp add: d1(1) d2 d3 a(2) m(2) r(2) del: of_nat_add)
  moreover have "is_scalar c" unfolding is_scalar_def using rng by linarith
  ultimately show ?thesis by blast
qed

lemma dec4:
  assumes "240 \<le> unat (b0::byte)" "unat b0 \<le> 244" "is_cont b1" "is_cont b2" "is_cont b3"
    "\<not> (unat b0 = 240 \<and> unat b1 < 144)" "\<not> (unat b0 = 244 \<and> 143 < unat b1)"
  shows "\<exists>c. is_scalar c \<and> utf8_encode c = [b0, b1, b2, b3]"
proof -
  define a where "a = unat b0 - 240"
  define m1 where "m1 = unat b1 - 128"
  define m where "m = unat b2 - 128"
  define r where "r = unat b3 - 128"
  define c where "c = 262144 * a + 4096 * m1 + 64 * m + r"
  have a: "a \<le> 4" "240 + a = unat b0" using assms unfolding a_def by linarith+
  have m1: "m1 < 64" "128 + m1 = unat b1" using assms(3) unfolding m1_def is_cont_def by linarith+
  have m: "m < 64" "128 + m = unat b2" using assms(4) unfolding m_def is_cont_def by linarith+
  have r: "r < 64" "128 + r = unat b3" using assms(5) unfolding r_def is_cont_def by linarith+
  have ov: "a = 0 \<longrightarrow> 16 \<le> m1" using assms(6) a(2) m1(2) by linarith
  have su: "a = 4 \<longrightarrow> m1 < 16" using assms(7) a(2) m1(2) by linarith
  have c64: "c = 64 * (64 * (64 * a + m1) + m) + r" unfolding c_def by simp
  have d1: "c mod 64 = r" "c div 64 = 64 * (64 * a + m1) + m"
    unfolding c64 using r(1) by (rule mod64, rule div64)
  have d2: "c div 64 mod 64 = m" "c div 64 div 64 = 64 * a + m1"
    unfolding d1 using m(1) by (rule mod64, rule div64)
  have "c div 4096 = c div 64 div 64" by (simp add: div_mult2_eq)
  then have d3: "c div 4096 = 64 * a + m1" using d2 by simp
  have d4: "c div 4096 mod 64 = m1" "c div 4096 div 64 = a"
    unfolding d3 using m1(1) by (rule mod64, rule div64)
  have "c div 262144 = c div 4096 div 64" by (simp add: div_mult2_eq)
  then have d5: "c div 262144 = a" using d4 by simp
  have rng: "65536 \<le> c" "c \<le> 1114111"
    unfolding c_def using a m1 m r ov su by linarith+
  have "utf8_encode c = [b0, b1, b2, b3]"
    unfolding utf8_encode_def using rng
    by (simp add: d1(1) d2(1) d4(1) d5 a(2) m1(2) m(2) r(2) del: of_nat_add)
  moreover have "is_scalar c" unfolding is_scalar_def using rng by linarith
  ultimately show ?thesis by blast
qed

lemma ok_dec: "utf8_ok bs \<Longrightarrow> \<exists>cps. list_all is_scalar cps \<and> bs = concat (map utf8_encode cps)"
proof (induction bs rule: length_induct)
  case (1 bs)
  have IH: "\<And>r. length r < length bs \<Longrightarrow> utf8_ok r \<Longrightarrow>
            \<exists>cps. list_all is_scalar cps \<and> r = concat (map utf8_encode cps)"
    using 1(1) by blast
  have step: "\<And>s r. bs = s @ r \<Longrightarrow> s \<noteq> [] \<Longrightarrow> utf8_ok r \<Longrightarrow>
       (\<exists>c. is_scalar c \<and> utf8_encode c = s) \<Longrightarrow> ?case"
  proof -
    fix s r assume bs: "bs = s @ r" and ne: "s \<noteq> []" and ok: "utf8_ok r"
      and ex: "\<exists>c. is_scalar c \<and> utf8_encode c = s"
    from ex obtain c where c: "is_scalar c" "utf8_encode c = s" by blast
    from IH[of r] bs ne ok obtain cps where
      cps: "list_all is_scalar cps" "r = concat (map utf8_encode cps)" by auto
    show "\<exists>cps. list_all is_scalar cps \<and> bs = concat (map utf8_encode cps)"
      by (rule exI[of _ "c # cps"]) (simp add: c cps bs)
  qed
  show ?case
  proof (cases bs)
    case Nil
    then show ?thesis by (intro exI[of _ "[]"]) simp
  next
    case (Cons b0 r0)
    define n where "n = unat b0"
    consider (ascii) "n \<le> 127" | (bad) "128 \<le> n \<and> n \<le> 193 \<or> 245 \<le> n"
      | (two) "194 \<le> n \<and> n \<le> 223" | (three) "224 \<le> n \<and> n \<le> 239"
      | (four) "240 \<le> n \<and> n \<le> 244"
      by linarith
    then show ?thesis
    proof cases
      case ascii
      then have "utf8_ok r0" using 1(2) Cons by (simp add: n_def)
      then show ?thesis using step[of "[b0]" r0] Cons dec1[of b0] ascii by (simp add: n_def)
    next
      case bad
      then have False using 1(2) Cons by (auto simp add: n_def)
      then show ?thesis ..
    next
      case two
      then obtain b1 r1 where r0: "r0 = b1 # r1" and c: "is_cont b1" and ok: "utf8_ok r1"
        using 1(2) Cons by (cases r0) (auto simp add: n_def)
      show ?thesis using step[of "[b0, b1]" r1] Cons r0 ok dec2[of b0 b1] two c
        by (simp add: n_def)
    next
      case three
      then obtain b1 b2 r1 where r0: "r0 = b1 # b2 # r1" and c: "is_cont b1" "is_cont b2"
        "\<not> (unat b0 = 224 \<and> unat b1 < 160)" "\<not> (unat b0 = 237 \<and> 160 \<le> unat b1)"
        and ok: "utf8_ok r1"
        using 1(2) Cons by (cases r0; cases "tl r0") (auto simp add: n_def)
      show ?thesis using step[of "[b0, b1, b2]" r1] Cons r0 ok dec3[of b0 b1 b2] three c
        by (simp add: n_def)
    next
      case four
      then obtain b1 b2 b3 r1 where r0: "r0 = b1 # b2 # b3 # r1"
        and c: "is_cont b1" "is_cont b2" "is_cont b3"
        "\<not> (unat b0 = 240 \<and> unat b1 < 144)" "\<not> (unat b0 = 244 \<and> 143 < unat b1)"
        and ok: "utf8_ok r1"
        using 1(2) Cons by (cases r0; cases "tl r0"; cases "tl (tl r0)") (auto simp add: n_def)
      show ?thesis using step[of "[b0, b1, b2, b3]" r1] Cons r0 ok dec4[of b0 b1 b2 b3] four c
        by (simp add: n_def)
    qed
  qed
qed

lemma isValidUtf8_ok: "isValidUtf8 bs = utf8_ok bs"
  by (simp add: isValidUtf8_def utf8_loop_ok)

lemma isValidUtf8_iff:
  "isValidUtf8 bs \<longleftrightarrow> (\<exists>cps. list_all is_scalar cps \<and> bs = concat (map utf8_encode cps))"
  using ok_dec[of bs] enc_concat[of _ "[]"] by (auto simp add: isValidUtf8_ok)

lemma utf8_ok_prefix: "utf8_ok pre \<Longrightarrow> utf8_ok (pre @ s) = utf8_ok s"
  using ok_dec[of pre] enc_concat by auto

lemma is_continuation_cont: "is_continuation b = is_cont b"
  by (simp add: is_continuation_def is_cont_def byte_le_iff)

lemma utf8_ok_bytes:
  "utf8_ok bs \<Longrightarrow> b \<in> set bs \<Longrightarrow> unat b \<noteq> 192 \<and> unat b \<noteq> 193 \<and> unat b < 245"
proof (induction bs rule: length_induct)
  case (1 bs)
  have IH: "\<And>r. length r < length bs \<Longrightarrow> utf8_ok r \<Longrightarrow> b \<in> set r \<Longrightarrow>
            unat b \<noteq> 192 \<and> unat b \<noteq> 193 \<and> unat b < 245"
    using 1(1) by blast
  show ?case
  proof (cases bs)
    case Nil
    then show ?thesis using 1(3) by simp
  next
    case (Cons b0 r0)
    define n where "n = unat b0"
    consider (ascii) "n \<le> 127" | (bad) "128 \<le> n \<and> n \<le> 193 \<or> 245 \<le> n"
      | (two) "194 \<le> n \<and> n \<le> 223" | (three) "224 \<le> n \<and> n \<le> 239"
      | (four) "240 \<le> n \<and> n \<le> 244"
      by linarith
    then show ?thesis
    proof cases
      case ascii
      then have "utf8_ok r0" using 1(2) Cons by (simp add: n_def)
      then show ?thesis using IH[of r0] Cons 1(3) ascii by (auto simp add: n_def)
    next
      case bad
      then have False using 1(2) Cons by (auto simp add: n_def)
      then show ?thesis ..
    next
      case two
      then obtain b1 r1 where r0: "r0 = b1 # r1" and c: "is_cont b1" and ok: "utf8_ok r1"
        using 1(2) Cons by (cases r0) (auto simp add: n_def)
      show ?thesis using IH[of r1] Cons r0 ok 1(3) two c
        by (auto simp add: n_def is_cont_def)
    next
      case three
      then obtain b1 b2 r1 where r0: "r0 = b1 # b2 # r1" and c: "is_cont b1" "is_cont b2"
        and ok: "utf8_ok r1"
        using 1(2) Cons by (cases r0; cases "tl r0") (auto simp add: n_def)
      show ?thesis using IH[of r1] Cons r0 ok 1(3) three c
        by (auto simp add: n_def is_cont_def)
    next
      case four
      then obtain b1 b2 b3 r1 where r0: "r0 = b1 # b2 # b3 # r1"
        and c: "is_cont b1" "is_cont b2" "is_cont b3"
        and ok: "utf8_ok r1"
        using 1(2) Cons by (cases r0; cases "tl r0"; cases "tl (tl r0)") (auto simp add: n_def)
      show ?thesis using IH[of r1] Cons r0 ok 1(3) four c
        by (auto simp add: n_def is_cont_def)
    qed
  qed
qed

lemma forbidden_bytes:
  "b \<in> set bs \<Longrightarrow> b = 0xC0 \<or> b = 0xC1 \<or> 0xF5 \<le> b \<Longrightarrow> \<not> isValidUtf8 bs"
  using utf8_ok_bytes[of bs b] by (auto simp add: isValidUtf8_ok byte_le_iff)

lemma seq_E0: "b1 < 0xA0 \<Longrightarrow> \<not> utf8_ok (0xE0 # b1 # rest)"
  by (cases rest) (auto simp add: byte_less_iff)
lemma seq_ED: "0xA0 \<le> b1 \<Longrightarrow> \<not> utf8_ok (0xED # b1 # rest)"
  by (cases rest) (auto simp add: byte_le_iff)
lemma seq_F0: "b1 < 0x90 \<Longrightarrow> \<not> utf8_ok (0xF0 # b1 # rest)"
  by (cases rest; cases "tl rest") (auto simp add: byte_less_iff)
lemma seq_F4: "0x8F < b1 \<Longrightarrow> \<not> utf8_ok (0xF4 # b1 # rest)"
  by (cases rest; cases "tl rest") (auto simp add: byte_less_iff)

lemma seq_cont:
  assumes "j < required_continuations b0" "length tail \<le> j \<or> \<not> is_continuation (tail ! j)"
  shows "\<not> utf8_ok (b0 # tail)"
proof -
  consider (two) "194 \<le> unat b0 \<and> unat b0 \<le> 223" "j < 1"
    | (three) "224 \<le> unat b0 \<and> unat b0 \<le> 239" "j < 2"
    | (four) "240 \<le> unat b0 \<and> unat b0 \<le> 244" "j < 3"
    using assms(1) by (auto simp add: required_continuations_def byte_le_iff split: if_splits)
  then show ?thesis
  proof cases
    case two
    then show ?thesis using assms(2)
      by (cases tail) (auto simp add: is_continuation_cont)
  next
    case three
    then have "j = 0 \<or> j = 1" by linarith
    then show ?thesis using assms(2) three(1)
      by (cases tail; cases "tl tail") (auto simp add: is_continuation_cont)
  next
    case four
    then have "j = 0 \<or> j = 1 \<or> j = 2" by linarith
    then show ?thesis using assms(2) four(1)
      by (cases tail; cases "tl tail"; cases "tl (tl tail)") (auto simp add: is_continuation_cont)
  qed
qed

subsection \<open>C9: isValidUtf8 accepts exactly well-formed UTF-8\<close>

text \<open>
  Claim C9. \<open>isValidUtf8\<close> returns true exactly for the byte strings that are a
  concatenation of RFC 3629 encodings of Unicode scalar values. In particular it
  returns false for a string that contains one of the bytes C0, C1, F5..FF, and,
  at the start of a sequence (after a prefix that is itself valid), for an
  overlong three-byte form (E0 followed by a byte below A0), an overlong four-byte
  form (F0 followed by a byte below 90), a surrogate (ED followed by a byte from
  A0 on), a code point above U+10FFFF (F4 followed by a byte above 8F), a
  non-continuation byte where a lead byte requires a continuation byte, and a
  sequence cut short by the end of the string.
\<close>

theorem isValidUtf8_rfc3629:
  "(isValidUtf8 bs \<longleftrightarrow> (\<exists>cps. list_all is_scalar cps \<and> bs = concat (map utf8_encode cps)))
   \<and> ((\<exists>b \<in> set bs. b = 0xC0 \<or> b = 0xC1 \<or> 0xF5 \<le> b) \<longrightarrow> \<not> isValidUtf8 bs)
   \<and> (isValidUtf8 pre \<longrightarrow>
        (b1 < 0xA0 \<longrightarrow> \<not> isValidUtf8 (pre @ 0xE0 # b1 # rest))
      \<and> (b1 < 0x90 \<longrightarrow> \<not> isValidUtf8 (pre @ 0xF0 # b1 # rest))
      \<and> (0xA0 \<le> b1 \<longrightarrow> \<not> isValidUtf8 (pre @ 0xED # b1 # rest))
      \<and> (0x8F < b1 \<longrightarrow> \<not> isValidUtf8 (pre @ 0xF4 # b1 # rest))
      \<and> (j < required_continuations b0 \<and> j < length tail \<and> \<not> is_continuation (tail ! j)
           \<longrightarrow> \<not> isValidUtf8 (pre @ b0 # tail))
      \<and> (length tail < required_continuations b0 \<longrightarrow> \<not> isValidUtf8 (pre @ b0 # tail)))"
proof (intro conjI impI)
  show "isValidUtf8 bs \<longleftrightarrow> (\<exists>cps. list_all is_scalar cps \<and> bs = concat (map utf8_encode cps))"
    by (rule isValidUtf8_iff)
next
  assume "\<exists>b \<in> set bs. b = 0xC0 \<or> b = 0xC1 \<or> 0xF5 \<le> b"
  then show "\<not> isValidUtf8 bs" using forbidden_bytes by blast
next
  assume "isValidUtf8 pre" "b1 < 0xA0"
  then show "\<not> isValidUtf8 (pre @ 0xE0 # b1 # rest)"
    using seq_E0[of b1 rest] by (simp add: isValidUtf8_ok utf8_ok_prefix del: utf8_ok.simps)
next
  assume "isValidUtf8 pre" "b1 < 0x90"
  then show "\<not> isValidUtf8 (pre @ 0xF0 # b1 # rest)"
    using seq_F0[of b1 rest] by (simp add: isValidUtf8_ok utf8_ok_prefix del: utf8_ok.simps)
next
  assume "isValidUtf8 pre" "0xA0 \<le> b1"
  then show "\<not> isValidUtf8 (pre @ 0xED # b1 # rest)"
    using seq_ED[of b1 rest] by (simp add: isValidUtf8_ok utf8_ok_prefix del: utf8_ok.simps)
next
  assume "isValidUtf8 pre" "0x8F < b1"
  then show "\<not> isValidUtf8 (pre @ 0xF4 # b1 # rest)"
    using seq_F4[of b1 rest] by (simp add: isValidUtf8_ok utf8_ok_prefix del: utf8_ok.simps)
next
  assume p: "isValidUtf8 pre"
    and "j < required_continuations b0 \<and> j < length tail \<and> \<not> is_continuation (tail ! j)"
  then have "\<not> utf8_ok (b0 # tail)" using seq_cont[of j b0 tail] by blast
  then show "\<not> isValidUtf8 (pre @ b0 # tail)"
    using p by (simp add: isValidUtf8_ok utf8_ok_prefix del: utf8_ok.simps)
next
  assume p: "isValidUtf8 pre" and "length tail < required_continuations b0"
  then have "\<not> utf8_ok (b0 # tail)" using seq_cont[of "length tail" b0 tail] by blast
  then show "\<not> isValidUtf8 (pre @ b0 # tail)"
    using p by (simp add: isValidUtf8_ok utf8_ok_prefix del: utf8_ok.simps)
qed

text \<open>
  The theorem at concrete inputs: the euro sign is accepted; C0 anywhere, an
  overlong E0 80 80 after the letter A, a surrogate ED A0 80, F4 90 80 80, a
  three-byte lead followed by an ASCII byte, and a truncated euro sign are
  rejected.
\<close>

theorem isValidUtf8_rfc3629_witness:
  "isValidUtf8 [0xE2, 0x82, 0xAC]
   \<and> \<not> isValidUtf8 [0x41, 0xC0]
   \<and> \<not> isValidUtf8 [0x41, 0xE0, 0x80, 0x80]
   \<and> \<not> isValidUtf8 [0x41, 0xF0, 0x80, 0x80, 0x80]
   \<and> \<not> isValidUtf8 [0x41, 0xED, 0xA0, 0x80]
   \<and> \<not> isValidUtf8 [0x41, 0xF4, 0x90, 0x80, 0x80]
   \<and> \<not> isValidUtf8 [0x41, 0xE2, 0x82, 0x41]
   \<and> \<not> isValidUtf8 [0x41, 0xE2, 0x82]"
proof -
  have enc: "utf8_encode 0x20AC = [0xE2, 0x82, 0xAC]"
    by (simp add: utf8_encode_def)
  have "list_all is_scalar [0x20AC] \<and> [0xE2, 0x82, 0xAC] = concat (map utf8_encode [0x20AC])"
    by (simp add: enc is_scalar_def)
  then have ex: "\<exists>cps. list_all is_scalar cps \<and> [0xE2, 0x82, 0xAC] = concat (map utf8_encode cps)"
    by blast
  have ex1: "\<exists>cps. list_all is_scalar cps \<and> [0x41] = concat (map utf8_encode cps)"
    by (rule exI[of _ "[0x41]"]) (simp add: utf8_encode_def is_scalar_def)
  have a: "isValidUtf8 [0x41]"
    using isValidUtf8_rfc3629[where bs = "[0x41]", THEN conjunct1] ex1 by blast
  have 1: "isValidUtf8 [0xE2, 0x82, 0xAC]"
    using isValidUtf8_rfc3629[where bs = "[0xE2, 0x82, 0xAC]", THEN conjunct1] ex by blast
  have 2: "\<not> isValidUtf8 [0x41, 0xC0]"
    using isValidUtf8_rfc3629[where bs = "[0x41, 0xC0]", THEN conjunct2, THEN conjunct1]
    by simp
  have 3: "\<not> isValidUtf8 [0x41, 0xE0, 0x80, 0x80]"
    using isValidUtf8_rfc3629[where pre = "[0x41]" and ?b1.0 = "0x80" and rest = "[0x80]",
        THEN conjunct2, THEN conjunct2, THEN mp, OF a, THEN conjunct1] by simp
  have 4: "\<not> isValidUtf8 [0x41, 0xF0, 0x80, 0x80, 0x80]"
    using isValidUtf8_rfc3629[where pre = "[0x41]" and ?b1.0 = "0x80" and rest = "[0x80, 0x80]",
        THEN conjunct2, THEN conjunct2, THEN mp, OF a, THEN conjunct2, THEN conjunct1] by simp
  have 5: "\<not> isValidUtf8 [0x41, 0xED, 0xA0, 0x80]"
    using isValidUtf8_rfc3629[where pre = "[0x41]" and ?b1.0 = "0xA0" and rest = "[0x80]",
        THEN conjunct2, THEN conjunct2, THEN mp, OF a, THEN conjunct2, THEN conjunct2, THEN conjunct1] by simp
  have 6: "\<not> isValidUtf8 [0x41, 0xF4, 0x90, 0x80, 0x80]"
    using isValidUtf8_rfc3629[where pre = "[0x41]" and ?b1.0 = "0x90" and rest = "[0x80, 0x80]",
        THEN conjunct2, THEN conjunct2, THEN mp, OF a, THEN conjunct2, THEN conjunct2, THEN conjunct2, THEN conjunct1] by simp
  have 7: "\<not> isValidUtf8 [0x41, 0xE2, 0x82, 0x41]"
    using isValidUtf8_rfc3629[where pre = "[0x41]" and ?b0.0 = "0xE2" and tail = "[0x82, 0x41]" and j = 1,
        THEN conjunct2, THEN conjunct2, THEN mp, OF a, THEN conjunct2, THEN conjunct2, THEN conjunct2, THEN conjunct2, THEN conjunct1]
    by (simp add: required_continuations_def is_continuation_def)
  have 8: "\<not> isValidUtf8 [0x41, 0xE2, 0x82]"
    using isValidUtf8_rfc3629[where pre = "[0x41]" and ?b0.0 = "0xE2" and tail = "[0x82]",
        THEN conjunct2, THEN conjunct2, THEN mp, OF a, THEN conjunct2, THEN conjunct2, THEN conjunct2, THEN conjunct2, THEN conjunct2]
    by (simp add: required_continuations_def)
  from 1 2 3 4 5 6 7 8 show ?thesis by blast
qed

subsection \<open>C2: the close frame\<close>

lemma receiver1_init:
  "initializeCompression toy_zlib receiver0 (default_cfg\<lparr> enabled := True \<rparr>) = (True, receiver1)"
  by (simp add: initializeCompression_def shutdownCompression_def rxInitInflate_def
      txInitDeflate_def receiver0_def receiver1_def toy_zlib_def default_cfg_def Z_OK_def Let_def)

lemma isValidUtf8_Nil: "isValidUtf8 []"
  by (simp add: isValidUtf8_ok)

lemma handleCloseFrame_sanitize:
  assumes "length pl \<le> 125"
  shows "handleCloseFrame (log, r) pl =
         (log @ [RxClose (fst (sanitize_close pl)) (snd (sanitize_close pl))], r)"
proof (cases pl)
  case Nil
  then show ?thesis by (simp add: handleCloseFrame_def emit_def)
next
  case (Cons b0 t)
  show ?thesis
  proof (cases t)
    case Nil
    with Cons show ?thesis by (simp add: handleCloseFrame_def emit_def)
  next
    case (Cons b1 reason)
    have len: "length reason \<le> 123" using assms \<open>pl = b0 # t\<close> Cons by simp
    show ?thesis using assms len unfolding \<open>pl = b0 # t\<close> Cons
      by (cases reason)
         (auto simp add: handleCloseFrame_def emit_def be16_def valid_close_code_def Let_def
            isValidUtf8_Nil)
  qed
qed

lemma handleCloseFrame_too_long:
  "125 < length pl \<Longrightarrow> handleCloseFrame (log, r) pl = (log @ [RxClose 1002 []], r)"
  by (simp add: handleCloseFrame_def emit_def)

text \<open>
  Claim C2. \<open>handleCloseFrame\<close> makes exactly one sink call, \<open>onRxClose\<close>, with the
  sanitized pair of the payload: an empty payload gives 1000 and no reason, one
  byte gives 1002, and from two bytes on the big-endian code and the reason are
  delivered unchanged unless the code is not permitted or the reason is not valid
  UTF-8, which gives 1002 and no reason. The payload of a control frame has at
  most 125 bytes (\<open>onData\<close> rejects a longer one before the handler runs), so the
  reason has at most 123; for a longer payload the handler answers 1002
  (\<open>handleCloseFrame_too_long\<close>).
\<close>

theorem handleCloseFrame_delivers_sanitized:
  "length pl \<le> 125 \<Longrightarrow>
   handleCloseFrame (log, r) pl
     = (log @ [RxClose (fst (sanitize_close pl)) (snd (sanitize_close pl))], r)
   \<and> (pl = [] \<longrightarrow> sanitize_close pl = (1000, []))
   \<and> (length pl = 1 \<longrightarrow> sanitize_close pl = (1002, []))
   \<and> (2 \<le> length pl \<longrightarrow>
        sanitize_close pl =
          (if \<not> valid_close_code (256 * unat (pl ! 0) + unat (pl ! 1))
              \<or> \<not> isValidUtf8 (drop 2 pl)
           then (1002, [])
           else (256 * unat (pl ! 0) + unat (pl ! 1), drop 2 pl)))"
proof (intro conjI impI)
  assume "length pl \<le> 125"
  then show "handleCloseFrame (log, r) pl
     = (log @ [RxClose (fst (sanitize_close pl)) (snd (sanitize_close pl))], r)"
    by (rule handleCloseFrame_sanitize)
next
  assume "pl = []" then show "sanitize_close pl = (1000, [])" by simp
next
  assume "length pl = 1" then show "sanitize_close pl = (1002, [])"
    by (cases pl) auto
next
  assume "2 \<le> length pl"
  then obtain b0 b1 reason where "pl = b0 # b1 # reason"
    by (cases pl; cases "tl pl") auto
  then show "sanitize_close pl =
          (if \<not> valid_close_code (256 * unat (pl ! 0) + unat (pl ! 1))
              \<or> \<not> isValidUtf8 (drop 2 pl)
           then (1002, [])
           else (256 * unat (pl ! 0) + unat (pl ! 1), drop 2 pl))"
    by (simp add: Let_def)
qed

text \<open>
  At concrete payloads: code 1000 with reason \<open>bye\<close>, the unassigned code 1005,
  a one-byte payload, the empty payload, and a reason that is not UTF-8.
\<close>

theorem handleCloseFrame_delivers_sanitized_witness:
  "handleCloseFrame ([], receiver0) [0x03, 0xE8, 0x62, 0x79, 0x65]
     = ([RxClose 1000 [0x62, 0x79, 0x65]], receiver0)
   \<and> handleCloseFrame ([], receiver0) [0x03, 0xED] = ([RxClose 1002 []], receiver0)
   \<and> handleCloseFrame ([], receiver0) [0x03] = ([RxClose 1002 []], receiver0)
   \<and> handleCloseFrame ([], receiver0) [] = ([RxClose 1000 []], receiver0)
   \<and> handleCloseFrame ([], receiver0) [0x03, 0xE8, 0xC0] = ([RxClose 1002 []], receiver0)"
proof -
  have v: "isValidUtf8 [0x62, 0x79, 0x65]" "\<not> isValidUtf8 [0xC0]"
    by (simp_all add: isValidUtf8_ok)
  have 1: "handleCloseFrame ([], receiver0) [0x03, 0xE8, 0x62, 0x79, 0x65]
     = ([RxClose 1000 [0x62, 0x79, 0x65]], receiver0)"
    using handleCloseFrame_delivers_sanitized[of "[0x03, 0xE8, 0x62, 0x79, 0x65]" "[]" receiver0,
        THEN conjunct1] v
    by (simp add: valid_close_code_def)
  have 2: "handleCloseFrame ([], receiver0) [0x03, 0xED] = ([RxClose 1002 []], receiver0)"
    using handleCloseFrame_delivers_sanitized[of "[0x03, 0xED]" "[]" receiver0, THEN conjunct1]
    by (simp add: valid_close_code_def)
  have 3: "handleCloseFrame ([], receiver0) [0x03] = ([RxClose 1002 []], receiver0)"
    using handleCloseFrame_delivers_sanitized[of "[0x03]" "[]" receiver0, THEN conjunct1]
    by simp
  have 4: "handleCloseFrame ([], receiver0) [] = ([RxClose 1000 []], receiver0)"
    using handleCloseFrame_delivers_sanitized[of "[]" "[]" receiver0, THEN conjunct1]
    by simp
  have 5: "handleCloseFrame ([], receiver0) [0x03, 0xE8, 0xC0] = ([RxClose 1002 []], receiver0)"
    using handleCloseFrame_delivers_sanitized[of "[0x03, 0xE8, 0xC0]" "[]" receiver0,
        THEN conjunct1] v
    by (simp add: valid_close_code_def)
  from 1 2 3 4 5 show ?thesis by blast
qed

subsection \<open>One round of onData on a buffered frame\<close>

lemma onData_step_fold:
  assumes "2 \<le> length buf"
  shows "onData_step Z V S w buf =
     (if rxIsTerminating S (fst w) then Some (Exit w)
      else
          if (\<not> rxCompressionEnabled S (fst w) \<and> frame_rsv1 buf) \<or> frame_rsv2 buf \<or> frame_rsv3 buf then
            Some (Exit (emit (RxProtocolError 1002 ''Unexpected RSV bits'') w))
          else if frame_control buf \<and> \<not> frame_fin buf then
            Some (Exit (emit (RxProtocolError 1002 ''Control frame fragmented'') w))
          else if frame_masked buf then
            Some (Exit (emit (RxProtocolError 1002 ''Masked frame from server'') w))
          else if \<not> frame_header_len buf \<le> length buf then Some (Exit w)
          else
            if frame_control buf \<and> frame_payload_len buf > 125 then
              Some (Exit (emit (RxProtocolError 1002 ''Control frame payload too large'') w))
            else
              let need = (frame_header_len buf + frame_payload_len buf) mod size_max in
              if length buf < need then Some (Exit w)
              else if need = 0 then
                Some (Exit (emit (RxProtocolError 1002 ''Failed to pullup frame buffer'') w))
              else if frame_payload_len buf > vector_max_size then Some Throw_length_error
              else
                dispatch Z V S w (int (frame_opcode buf)) (frame_fin buf) (frame_rsv1 buf)
                  (frame_payload buf) need)"
proof -
  have n0: "take 14 buf ! 0 = buf ! 0" and n1: "take 14 buf ! 1 = buf ! 1"
    using assms by simp_all
  have cb: "((buf ! 0 AND 0x0F) AND 0x08 \<noteq> 0) = frame_control buf"
  proof -
    have "((buf ! 0) AND 0x0F) AND 0x08 = (buf ! 0) AND (0x0F AND 0x08)" by (rule and.assoc)
    also have "(0x0F :: byte) AND 0x08 = 0x08" by simp
    finally show ?thesis by (simp only: frame_control_def)
  qed
  note flds = frame_fin_def[symmetric] frame_rsv1_def[symmetric] frame_rsv2_def[symmetric]
    frame_rsv3_def[symmetric] frame_masked_def[symmetric] frame_len7_def[symmetric]
  have op: "uint (buf ! 0 AND 0x0F) = int (frame_opcode buf)"
    by (simp only: frame_opcode_def uint_nat)
  have base: "onData_step Z V S w buf =
     (if rxIsTerminating S (fst w) then Some (Exit w)
      else
          if (\<not> rxCompressionEnabled S (fst w) \<and> frame_rsv1 buf) \<or> frame_rsv2 buf \<or> frame_rsv3 buf then
            Some (Exit (emit (RxProtocolError 1002 ''Unexpected RSV bits'') w))
          else if frame_control buf \<and> \<not> frame_fin buf then
            Some (Exit (emit (RxProtocolError 1002 ''Control frame fragmented'') w))
          else if frame_masked buf then
            Some (Exit (emit (RxProtocolError 1002 ''Masked frame from server'') w))
          else if frame_len7 buf = 126 \<and> length buf < 2 + 2 then Some (Exit w)
          else if frame_len7 buf = 127 \<and> length buf < 2 + 8 then Some (Exit w)
          else
            let header_len = (if frame_len7 buf = 126 then 2 + 2 else if frame_len7 buf = 127 then 2 + 8 else 2);
                pl_len = (if frame_len7 buf = 126 then be16 (take 14 buf ! 2) (take 14 buf ! 3)
                          else if frame_len7 buf = 127 then be64 (take 8 (drop 2 (take 14 buf)))
                          else frame_len7 buf)
            in
            if frame_control buf \<and> pl_len > 125 then
              Some (Exit (emit (RxProtocolError 1002 ''Control frame payload too large'') w))
            else
              let need = (header_len + pl_len) mod size_max in
              if length buf < need then Some (Exit w)
              else if need = 0 then
                Some (Exit (emit (RxProtocolError 1002 ''Failed to pullup frame buffer'') w))
              else if pl_len > vector_max_size then Some Throw_length_error
              else
                dispatch Z V S w (int (frame_opcode buf)) (frame_fin buf) (frame_rsv1 buf)
                  (take pl_len (drop header_len buf)) need)"
    unfolding onData_step_def Let_def n0 n1 unfolding cb op flds using assms
    by (simp only: not_less[symmetric] if_False if_True simp_thms)
  have hdr_ext: "take 8 (drop 2 (take 14 buf)) = take 8 (drop 2 buf)"
    by (simp add: drop_take)
  consider (a) "frame_len7 buf = 126" "length buf < 4"
    | (b) "frame_len7 buf = 126" "4 \<le> length buf"
    | (c) "frame_len7 buf = 127" "length buf < 10"
    | (d) "frame_len7 buf = 127" "10 \<le> length buf"
    | (e) "frame_len7 buf \<noteq> 126" "frame_len7 buf \<noteq> 127"
    by linarith
  then show ?thesis
  proof cases
    case a
    then show ?thesis unfolding base
      by (simp add: frame_header_len_def split del: if_split cong: if_cong)
  next
    case b
    then have n23: "take 14 buf ! 2 = buf ! 2" "take 14 buf ! 3 = buf ! 3" by simp_all
    show ?thesis unfolding base using b
      by (simp add: frame_header_len_def frame_payload_len_def frame_payload_def n23 Let_def
          split del: if_split cong: if_cong)
  next
    case c
    then show ?thesis unfolding base
      by (simp add: frame_header_len_def split del: if_split cong: if_cong)
  next
    case d
    show ?thesis unfolding base using d
      by (simp add: frame_header_len_def frame_payload_len_def frame_payload_def hdr_ext Let_def
          split del: if_split cong: if_cong)
  next
    case e
    show ?thesis unfolding base using e assms
      by (simp add: frame_header_len_def frame_payload_len_def frame_payload_def Let_def
          split del: if_split cong: if_cong)
  qed
qed



lemma emit_pair: "emit e (log, r) = (log @ [e], r)"
  by (simp add: emit_def)



lemma need_no_wrap:
  assumes "frame_buffered buf"
  shows "(frame_header_len buf + frame_payload_len buf) mod size_max
           = frame_header_len buf + frame_payload_len buf"
    "0 < frame_header_len buf + frame_payload_len buf"
    "\<not> length buf < frame_header_len buf + frame_payload_len buf"
    "\<not> vector_max_size < frame_payload_len buf"
    "2 \<le> length buf" "frame_header_len buf \<le> length buf"
proof -
  have len: "2 \<le> length buf" "frame_header_len buf \<le> length buf"
    "frame_header_len buf + frame_payload_len buf \<le> length buf" "length buf < 2 ^ 63"
    using assms by (simp_all add: frame_buffered_def header_buffered_def)
  have "frame_header_len buf + frame_payload_len buf < size_max"
    using len(3,4) by (simp add: size_max_def)
  then show "(frame_header_len buf + frame_payload_len buf) mod size_max
           = frame_header_len buf + frame_payload_len buf" by simp
  show "0 < frame_header_len buf + frame_payload_len buf" by (simp add: frame_header_len_def)
  show "\<not> length buf < frame_header_len buf + frame_payload_len buf" using len(3) by simp
  show "\<not> vector_max_size < frame_payload_len buf" using len(3,4) by (simp add: vector_max_size_def)
  show "2 \<le> length buf" "frame_header_len buf \<le> length buf" using len by simp_all
qed


lemma onData_step_dispatch:
  assumes "\<not> rxIsTerminating S log" "frame_buffered buf" "header_ok S log buf"
  shows "onData_step Z V S (log, r) buf =
         dispatch Z V S (log, r) (int (frame_opcode buf)) (frame_fin buf) (frame_rsv1 buf)
           (frame_payload buf) (frame_header_len buf + frame_payload_len buf)"
  using assms(1,3) need_no_wrap[OF assms(2)]
  by (auto simp add: onData_step_fold header_ok_def Let_def)

lemma opcode_control:
  assumes "frame_opcode buf = 8 \<or> frame_opcode buf = 9 \<or> frame_opcode buf = 10"
  shows "frame_control buf"
proof -
  have a: "((buf ! 0) AND 0x0F) AND 0x08 = (buf ! 0) AND 0x08"
  proof -
    have "((buf ! 0) AND 0x0F) AND 0x08 = (buf ! 0) AND (0x0F AND 0x08)" by (rule and.assoc)
    also have "(0x0F :: byte) AND 0x08 = 0x08" by simp
    finally show ?thesis .
  qed
  have "buf ! 0 AND 0x0F = 8 \<or> buf ! 0 AND 0x0F = 9 \<or> buf ! 0 AND 0x0F = 10"
    using assms unfolding frame_opcode_def by (auto simp add: word_unat_eq_iff)
  then have "((buf ! 0) AND 0x0F) AND 0x08 = 8" by auto
  then show ?thesis unfolding frame_control_def a by simp
qed

lemma frame_payload_length:
  "frame_buffered buf \<Longrightarrow> length (frame_payload buf) = frame_payload_len buf"
  by (auto simp add: frame_buffered_def frame_payload_def)

lemma control_frames:
  assumes "\<not> rxIsTerminating S log" "frame_buffered buf" "header_ok S log buf"
  shows "frame_opcode buf = 8 \<Longrightarrow> onData_step Z V S (log, r) buf =
           Some (Drain (log @ [RxClose (fst (sanitize_close (frame_payload buf)))
                                       (snd (sanitize_close (frame_payload buf)))], r)
                   (frame_header_len buf + frame_payload_len buf))"
    and "frame_opcode buf = 9 \<Longrightarrow> onData_step Z V S (log, r) buf =
           Some (Drain (log @ [RxPing (frame_payload buf)], r)
                   (frame_header_len buf + frame_payload_len buf))"
    and "frame_opcode buf = 10 \<Longrightarrow> onData_step Z V S (log, r) buf =
           Some (Drain (log, r) (frame_header_len buf + frame_payload_len buf))"
proof -
  note d = onData_step_dispatch[OF assms]
  have short: "frame_control buf \<Longrightarrow> length (frame_payload buf) \<le> 125"
    using assms(2,3) by (simp add: frame_payload_length header_ok_def)
  show "frame_opcode buf = 8 \<Longrightarrow> onData_step Z V S (log, r) buf =
           Some (Drain (log @ [RxClose (fst (sanitize_close (frame_payload buf)))
                                       (snd (sanitize_close (frame_payload buf)))], r)
                   (frame_header_len buf + frame_payload_len buf))"
    using short opcode_control[of buf]
    by (simp add: d dispatch_def handleCloseFrame_sanitize)
  show "frame_opcode buf = 9 \<Longrightarrow> onData_step Z V S (log, r) buf =
           Some (Drain (log @ [RxPing (frame_payload buf)], r)
                   (frame_header_len buf + frame_payload_len buf))"
    using short opcode_control[of buf]
    by (simp add: d dispatch_def handlePingFrame_def emit_pair)
  show "frame_opcode buf = 10 \<Longrightarrow> onData_step Z V S (log, r) buf =
           Some (Drain (log, r) (frame_header_len buf + frame_payload_len buf))"
    by (simp add: d dispatch_def)
qed

lemma handleContinuationFrame_idle:
  "\<not> message_in_progress r \<Longrightarrow> handleContinuationFrame Z V (log, r) pl fin
     = Some (log @ [RxProtocolError 1002 ''continuation frame without initial frame''], r)"
  by (simp add: handleContinuationFrame_def emit_pair)

lemma handleDataFrame_busy:
  "message_in_progress r \<Longrightarrow> handleDataFrame Z V S (log, r) pl fin opcode rsv1
     = Some (log @ [RxProtocolError 1002
                      ''Received new data frame when expecting continuation frame''], r)"
  by (simp add: handleDataFrame_def emit_pair)

subsection \<open>C1: the six header rules\<close>





subsection \<open>C7: fragment sequencing\<close>

text \<open>
  Claim C7. A continuation frame while no fragmented message is in progress
  makes one sink call, \<open>onRxProtocolError\<close> with 1002, and leaves the receiver
  as it was (nothing is appended); a data frame while a fragmented message is in
  progress does the same and leaves the assembly buffer as it was. Both as
  calls of the handlers and as rounds of \<open>onData\<close> on a buffered frame with opcode
  0, or 1 or 2.
\<close>

theorem fragment_sequencing:
  "(\<not> message_in_progress r \<longrightarrow>
      handleContinuationFrame Z V (log, r) pl fin
        = Some (log @ [RxProtocolError 1002 ''continuation frame without initial frame''], r))
   \<and> (message_in_progress r \<longrightarrow>
      handleDataFrame Z V S (log, r) pl fin opcode rsv1
        = Some (log @ [RxProtocolError 1002
                         ''Received new data frame when expecting continuation frame''], r))
   \<and> (\<not> rxIsTerminating S log \<and> frame_buffered buf \<and> header_ok S log buf \<longrightarrow>
        (frame_opcode buf = 0 \<and> \<not> message_in_progress r \<longrightarrow>
           onData_step Z V S (log, r) buf
             = Some (Drain (log @ [RxProtocolError 1002
                                     ''continuation frame without initial frame''], r)
                       (frame_header_len buf + frame_payload_len buf)))
      \<and> ((frame_opcode buf = 1 \<or> frame_opcode buf = 2) \<and> message_in_progress r \<longrightarrow>
           onData_step Z V S (log, r) buf
             = Some (Drain (log @ [RxProtocolError 1002
                                     ''Received new data frame when expecting continuation frame''], r)
                       (frame_header_len buf + frame_payload_len buf))))"
proof (intro conjI impI)
  assume "\<not> message_in_progress r"
  then show "handleContinuationFrame Z V (log, r) pl fin
        = Some (log @ [RxProtocolError 1002 ''continuation frame without initial frame''], r)"
    by (rule handleContinuationFrame_idle)
next
  assume "message_in_progress r"
  then show "handleDataFrame Z V S (log, r) pl fin opcode rsv1
        = Some (log @ [RxProtocolError 1002
                         ''Received new data frame when expecting continuation frame''], r)"
    by (rule handleDataFrame_busy)
next
  assume a: "\<not> rxIsTerminating S log \<and> frame_buffered buf \<and> header_ok S log buf"
    and b: "frame_opcode buf = 0 \<and> \<not> message_in_progress r"
  from a have d: "onData_step Z V S (log, r) buf =
         dispatch Z V S (log, r) (int (frame_opcode buf)) (frame_fin buf) (frame_rsv1 buf)
           (frame_payload buf) (frame_header_len buf + frame_payload_len buf)"
    using onData_step_dispatch by blast
  show "onData_step Z V S (log, r) buf
             = Some (Drain (log @ [RxProtocolError 1002
                                     ''continuation frame without initial frame''], r)
                       (frame_header_len buf + frame_payload_len buf))"
    using b by (simp add: d dispatch_def handleContinuationFrame_idle)
next
  assume a: "\<not> rxIsTerminating S log \<and> frame_buffered buf \<and> header_ok S log buf"
    and b: "(frame_opcode buf = 1 \<or> frame_opcode buf = 2) \<and> message_in_progress r"
  from a have d: "onData_step Z V S (log, r) buf =
         dispatch Z V S (log, r) (int (frame_opcode buf)) (frame_fin buf) (frame_rsv1 buf)
           (frame_payload buf) (frame_header_len buf + frame_payload_len buf)"
    using onData_step_dispatch by blast
  show "onData_step Z V S (log, r) buf
             = Some (Drain (log @ [RxProtocolError 1002
                                     ''Received new data frame when expecting continuation frame''], r)
                       (frame_header_len buf + frame_payload_len buf))"
    using b by (auto simp add: d dispatch_def handleDataFrame_busy)
qed

lemma quiet_not_terminating: "\<not> rxIsTerminating (quiet_sinks c) []"
  by (simp add: quiet_sinks_def)

lemma mid_in_progress: "message_in_progress receiver_mid" "\<not> message_in_progress receiver0"
  by (simp_all add: receiver_mid_def receiver0_def)

text \<open>
  At concrete inputs: a continuation frame for the idle \<open>receiver0\<close>, a text
  frame for \<open>receiver_mid\<close>, which is assembling a message.
\<close>

theorem fragment_sequencing_witness:
  "handleContinuationFrame toy_zlib buffering_validator ([], receiver0) [0x61] True
     = Some ([RxProtocolError 1002 ''continuation frame without initial frame''], receiver0)
   \<and> handleDataFrame toy_zlib buffering_validator (quiet_sinks False) ([], receiver_mid) [0x61] True 1 False
     = Some ([RxProtocolError 1002 ''Received new data frame when expecting continuation frame''],
             receiver_mid)
   \<and> onData_step toy_zlib buffering_validator (quiet_sinks False) ([], receiver0) [0x80, 0x01, 0x61]
     = Some (Drain ([RxProtocolError 1002 ''continuation frame without initial frame''], receiver0) 3)
   \<and> onData_step toy_zlib buffering_validator (quiet_sinks False) ([], receiver_mid) [0x81, 0x01, 0x61]
     = Some (Drain ([RxProtocolError 1002
                       ''Received new data frame when expecting continuation frame''], receiver_mid) 3)"
proof -
  note T = fragment_sequencing[where Z = toy_zlib and V = buffering_validator
      and S = "quiet_sinks False" and log = "[]"]
  have 1: "handleContinuationFrame toy_zlib buffering_validator ([], receiver0) [0x61] True
     = Some ([RxProtocolError 1002 ''continuation frame without initial frame''], receiver0)"
    using T[where r = receiver0 and pl = "[0x61]" and fin = True, THEN conjunct1]
      mid_in_progress by simp
  have 2: "handleDataFrame toy_zlib buffering_validator (quiet_sinks False) ([], receiver_mid) [0x61] True 1 False
     = Some ([RxProtocolError 1002 ''Received new data frame when expecting continuation frame''],
             receiver_mid)"
    using T[where r = receiver_mid and pl = "[0x61]" and fin = True and opcode = 1
        and ?rsv1.0 = False, THEN conjunct2, THEN conjunct1]
      mid_in_progress by simp
  have f1: "frame_buffered [0x80, 0x01, 0x61] \<and> header_ok (quiet_sinks False) [] [0x80, 0x01, 0x61]
            \<and> frame_opcode [0x80, 0x01, 0x61] = 0
            \<and> frame_header_len [0x80, 0x01, 0x61] + frame_payload_len [0x80, 0x01, 0x61] = 3"
    by (simp add: frame_buffered_def header_buffered_def header_ok_def frame_opcode_def
        frame_payload_len_def frame_len7_def frame_header_len_def frame_rsv1_def frame_rsv2_def
        frame_rsv3_def frame_masked_def frame_control_def frame_fin_def)
  have f2: "frame_buffered [0x81, 0x01, 0x61] \<and> header_ok (quiet_sinks False) [] [0x81, 0x01, 0x61]
            \<and> frame_opcode [0x81, 0x01, 0x61] = 1
            \<and> frame_header_len [0x81, 0x01, 0x61] + frame_payload_len [0x81, 0x01, 0x61] = 3"
    by (simp add: frame_buffered_def header_buffered_def header_ok_def frame_opcode_def
        frame_payload_len_def frame_len7_def frame_header_len_def frame_rsv1_def frame_rsv2_def
        frame_rsv3_def frame_masked_def frame_control_def frame_fin_def)
  have 3: "onData_step toy_zlib buffering_validator (quiet_sinks False) ([], receiver0) [0x80, 0x01, 0x61]
     = Some (Drain ([RxProtocolError 1002 ''continuation frame without initial frame''], receiver0) 3)"
    using T[where r = receiver0 and buf = "[0x80, 0x01, 0x61]", THEN conjunct2, THEN conjunct2]
      f1 quiet_not_terminating mid_in_progress by simp
  have 4: "onData_step toy_zlib buffering_validator (quiet_sinks False) ([], receiver_mid) [0x81, 0x01, 0x61]
     = Some (Drain ([RxProtocolError 1002
                       ''Received new data frame when expecting continuation frame''], receiver_mid) 3)"
    using T[where r = receiver_mid and buf = "[0x81, 0x01, 0x61]", THEN conjunct2, THEN conjunct2]
      f2 quiet_not_terminating mid_in_progress by simp
  from 1 2 3 4 show ?thesis by blast
qed

subsection \<open>C8: control frames between fragments\<close>

text \<open>
  Claim C8, as the code has it. A buffered control frame that passes the header
  rules is handled in the round that reaches it, whatever the state of fragment
  assembly, and the receiver (with \<open>message_in_progress\<close>, \<open>fragmented_opcode\<close>,
  \<open>fragmented_message\<close> and \<open>compressed_message_in_progress\<close>) is unchanged:
  a close frame makes the one call \<open>onRxClose\<close> with the sanitized code and
  reason, a ping frame the one call \<open>onRxPing\<close> with the frame's payload, and a
  pong frame makes no sink call at all (the source only logs it; the spec says
  it is accepted silently).
\<close>

theorem control_frames_interleaved:
  "\<not> rxIsTerminating S log \<and> frame_buffered buf \<and> header_ok S log buf \<Longrightarrow>
   (frame_opcode buf = 8 \<longrightarrow>
      onData_step Z V S (log, r) buf
        = Some (Drain (log @ [RxClose (fst (sanitize_close (frame_payload buf)))
                                      (snd (sanitize_close (frame_payload buf)))], r)
                  (frame_header_len buf + frame_payload_len buf)))
   \<and> (frame_opcode buf = 9 \<longrightarrow>
      onData_step Z V S (log, r) buf
        = Some (Drain (log @ [RxPing (frame_payload buf)], r)
                  (frame_header_len buf + frame_payload_len buf)))
   \<and> (frame_opcode buf = 10 \<longrightarrow>
      onData_step Z V S (log, r) buf
        = Some (Drain (log, r) (frame_header_len buf + frame_payload_len buf)))"
  using control_frames[of S log buf Z V r] by blast

text \<open>
  At concrete frames, for \<open>receiver_mid\<close>, which is assembling a message: a
  ping, a close with code 1000 and a pong.
\<close>

theorem control_frames_interleaved_witness:
  "onData_step toy_zlib buffering_validator (quiet_sinks False) ([], receiver_mid)
       [0x89, 0x02, 0x70, 0x71]
     = Some (Drain ([RxPing [0x70, 0x71]], receiver_mid) 4)
   \<and> onData_step toy_zlib buffering_validator (quiet_sinks False) ([], receiver_mid)
       [0x88, 0x02, 0x03, 0xE8]
     = Some (Drain ([RxClose 1000 []], receiver_mid) 4)
   \<and> onData_step toy_zlib buffering_validator (quiet_sinks False) ([], receiver_mid)
       [0x8A, 0x02, 0x70, 0x71]
     = Some (Drain ([], receiver_mid) 4)"
proof -
  note T = control_frames_interleaved[where Z = toy_zlib and V = buffering_validator
      and S = "quiet_sinks False" and log = "[]" and r = receiver_mid]
  have f: "\<And>h p q. h = 0x88 \<or> h = 0x89 \<or> h = 0x8A \<Longrightarrow>
            frame_buffered [h, 0x02, p, q] \<and> header_ok (quiet_sinks False) [] [h, 0x02, p, q]
            \<and> frame_header_len [h, 0x02, p, q] + frame_payload_len [h, 0x02, p, q] = 4
            \<and> frame_payload [h, 0x02, p, q] = [p, q]"
    by (auto simp add: frame_buffered_def header_buffered_def header_ok_def
        frame_payload_len_def frame_len7_def frame_header_len_def frame_rsv1_def frame_rsv2_def
        frame_rsv3_def frame_masked_def frame_control_def frame_fin_def frame_payload_def)
  have o: "frame_opcode [0x89, 0x02, 0x70, 0x71] = 9" "frame_opcode [0x88, 0x02, 0x03, 0xE8] = 8"
    "frame_opcode [0x8A, 0x02, 0x70, 0x71] = 10"
    by (simp_all add: frame_opcode_def)
  have 1: "onData_step toy_zlib buffering_validator (quiet_sinks False) ([], receiver_mid)
       [0x89, 0x02, 0x70, 0x71]
     = Some (Drain ([RxPing [0x70, 0x71]], receiver_mid) 4)"
    using T[where buf = "[0x89, 0x02, 0x70, 0x71]", THEN conjunct2, THEN conjunct1]
      f[of "0x89" "0x70" "0x71"] o quiet_not_terminating by simp
  have 2: "onData_step toy_zlib buffering_validator (quiet_sinks False) ([], receiver_mid)
       [0x88, 0x02, 0x03, 0xE8]
     = Some (Drain ([RxClose 1000 []], receiver_mid) 4)"
    using T[where buf = "[0x88, 0x02, 0x03, 0xE8]", THEN conjunct1]
      f[of "0x88" "0x03" "0xE8"] o quiet_not_terminating
    by (simp add: valid_close_code_def isValidUtf8_Nil)
  have 3: "onData_step toy_zlib buffering_validator (quiet_sinks False) ([], receiver_mid)
       [0x8A, 0x02, 0x70, 0x71]
     = Some (Drain ([], receiver_mid) 4)"
    using T[where buf = "[0x8A, 0x02, 0x70, 0x71]", THEN conjunct2, THEN conjunct2]
      f[of "0x8A" "0x70" "0x71"] o quiet_not_terminating by simp
  from 1 2 3 show ?thesis by blast
qed

text \<open>
  The claim says a pong goes to \<open>onRxPong\<close>. It does not: after a pong frame
  with payload \<open>pq\<close> the log of sink calls is still empty.
\<close>

theorem pong_makes_no_sink_call:
  "onData toy_zlib buffering_validator (quiet_sinks False) ([], receiver_mid) [0x8A, 0x02, 0x70, 0x71]
     = Some (Some (([], receiver_mid), []))"
proof -
  have s1: "onData_step toy_zlib buffering_validator (quiet_sinks False) ([], receiver_mid)
              [0x8A, 0x02, 0x70, 0x71] = Some (Drain ([], receiver_mid) 4)"
    by (simp add: onData_step_def dispatch_def quiet_sinks_def Let_def size_max_def
        vector_max_size_def)
  have s2: "onData_step toy_zlib buffering_validator (quiet_sinks False) ([], receiver_mid) []
              = Some (Exit ([], receiver_mid))"
    by (simp add: onData_step_def quiet_sinks_def)
  show ?thesis
    apply (subst onData.simps)
    apply (simp add: s1)
    apply (subst onData.simps)
    apply (simp add: s2)
    done
qed


subsection \<open>The transmit side: one attempt of \<open>txDeflate\<close>\<close>

text \<open>
  The four index tests on the tail of the produced output are one test on its
  last four bytes.
\<close>

lemma last4_nth:
  assumes "4 \<le> length xs"
  shows "(xs ! (length xs - 4) = a \<and> xs ! (length xs - 3) = b \<and> xs ! (length xs - 2) = c
          \<and> xs ! (length xs - 1) = d)
         = (drop (length xs - 4) xs = [a, b, c, d])"
proof -
  define n where "n = length xs - 4"
  have len: "length xs = n + 4" using assms by (simp add: n_def)
  have i: "length xs - 4 = n" "length xs - 3 = n + 1" "length xs - 2 = n + 2"
    "length xs - 1 = n + 3"
    using len by simp_all
  have "length (drop n xs) = 4" using len by simp
  then obtain p q s t where d: "drop n xs = [p, q, s, t]"
    by (cases "drop n xs"; cases "tl (drop n xs)"; cases "tl (tl (drop n xs))";
        cases "tl (tl (tl (drop n xs)))") auto
  have "xs ! (n + 0) = drop n xs ! 0" "xs ! (n + 1) = drop n xs ! 1"
    "xs ! (n + 2) = drop n xs ! 2" "xs ! (n + 3) = drop n xs ! 3"
    using len by (simp_all del: add_0_right)
  then have e: "xs ! n = p" "xs ! (n + 1) = q" "xs ! (n + 2) = s" "xs ! (n + 3) = t"
    by (simp_all add: d)
  show ?thesis unfolding i using e by (simp add: d)
qed

lemma txPrepare_shape:
  "fst (txPrepare Z r original request_compress) = True
   \<and> ((\<not> request_compress \<or> \<not> enabled (cfg r) \<or> \<not> deflate_initialized r
         \<or> \<not> fst (txDeflate Z r original))
        \<longrightarrow> fst (snd (txPrepare Z r original request_compress))
              = \<lparr> payload_ptr = Original, payload_len = length original,
                  payload_bytes = original, do_compress = False \<rparr>)
   \<and> (request_compress \<and> enabled (cfg r) \<and> deflate_initialized r \<and> fst (txDeflate Z r original)
        \<longrightarrow> fst (snd (txPrepare Z r original request_compress))
              = \<lparr> payload_ptr = Compressed,
                  payload_len = tx_payload_len (snd (txDeflate Z r original)),
                  payload_bytes = take (tx_payload_len (snd (txDeflate Z r original)))
                                    (tx_compressed_buf (snd (txDeflate Z r original))),
                  do_compress = True \<rparr>)"
  by (auto simp add: txPrepare_def Let_def split: prod.splits)

lemma toy_attempt0:
  "txDeflate_attempt toy_zlib receiver1 [1, 2, 3] 0
     = Done True (receiver1\<lparr> deflate_stream := [1, 2, 3],
         tx_compressed_buf := [0, 1, 2, 3, 0, 0, 0xFF, 0xFF] @ replicate 64 0,
         tx_payload_len := 4 \<rparr>)"
  by (simp add: txDeflate_attempt_def txResetDeflate_def receiver1_def receiver0_def toy_zlib_def
      default_cfg_def resize_def Let_def Z_OK_def Z_BUF_ERROR_def)

lemma toy_txDeflate:
  "txDeflate toy_zlib receiver1 [1, 2, 3]
     = (True, receiver1\<lparr> deflate_stream := [1, 2, 3],
         tx_compressed_buf := [0, 1, 2, 3, 0, 0, 0xFF, 0xFF] @ replicate 64 0,
         tx_payload_len := 4 \<rparr>)"
proof -
  have i: "deflate_initialized receiver1" by (simp add: receiver1_def)
  show ?thesis
    by (simp add: txDeflate_def i txDeflate_loop.simps[of _ _ _ 0] toy_attempt0)
qed



lemma length_resize: "length (resize v n) = n"
  by (simp add: resize_def)

lemma nth_resize: "i < n \<Longrightarrow> resize v n ! i = (if i < length v then v ! i else 0)"
  by (simp add: resize_def nth_append)

lemma nth_overwrite:
  "length out \<le> i \<Longrightarrow> length out \<le> length xs \<Longrightarrow>
   (out @ drop (length out) xs) ! i = xs ! i"
  by (simp add: nth_append)

lemma length_overwrite:
  "length out \<le> length xs \<Longrightarrow> length (out @ drop (length out) xs) = length xs"
  by simp

lemma txDeflate_attempt_unfold:
  assumes init: "deflate_initialized r"
    and bound: "bound = deflateBound Z (deflateReset Z (deflate_stream r)) (length inp)
                  + 64 * (attempt + 1)"
    and call: "deflate Z (deflateReset Z (deflate_stream r)) (take (length inp mod 2 ^ 32) inp)
                 (bound mod 2 ^ 32) = (ret, consumed, written, strm)"
    and out: "out = take (bound mod 2 ^ 32) written"
    and r2: "r2 = r\<lparr> deflate_stream := strm,
                     tx_compressed_buf := out @ drop (length out) (resize (tx_compressed_buf r) bound) \<rparr>"
    and n: "n = bound - (bound mod 2 ^ 32 - length out)"
  shows "txDeflate_attempt Z r inp attempt =
     (if ret \<noteq> Z_OK then
           (if ret = Z_BUF_ERROR \<or> bound mod 2 ^ 32 - length out = 0 then Retry r2
            else Done False r2)
         else
           if n < 4 then Retry r2
           else
             if \<not> (tx_compressed_buf r2 ! (n - 4) = 0x00
                   \<and> tx_compressed_buf r2 ! (n - 3) = 0x00
                   \<and> tx_compressed_buf r2 ! (n - 2) = 0xFF
                   \<and> tx_compressed_buf r2 ! (n - 1) = 0xFF)
             then Retry r2
             else
               if client_no_context_takeover (cfg (r2\<lparr> tx_payload_len := n - 4 \<rparr>)) then
                 (case txReinitAfterNoContextTakeover Z (r2\<lparr> tx_payload_len := n - 4 \<rparr>) of
                    (ok, r4) \<Rightarrow> if \<not> ok then Done False r4 else Done True r4)
               else Done True (r2\<lparr> tx_payload_len := n - 4 \<rparr>))"
proof -
  have r1: "txResetDeflate Z r = r\<lparr> deflate_stream := deflateReset Z (deflate_stream r) \<rparr>"
    using init by (simp add: txResetDeflate_def)
  have b': "deflateBound Z (deflateReset Z (deflate_stream r)) (length inp) + 64 * (attempt + 1) = bound"
    using bound by simp
  have sel: "deflate_stream (r\<lparr> deflate_stream := deflateReset Z (deflate_stream r) \<rparr>)
                = deflateReset Z (deflate_stream r)"
    "tx_compressed_buf (r\<lparr> deflate_stream := deflateReset Z (deflate_stream r) \<rparr>)
                = tx_compressed_buf r"
    by simp_all
  have upd: "r\<lparr> deflate_stream := deflateReset Z (deflate_stream r), deflate_stream := strm,
               tx_compressed_buf := out @ drop (length out) (resize (tx_compressed_buf r) bound) \<rparr> = r2"
    by (simp add: r2)
  show ?thesis
    unfolding txDeflate_attempt_def r1 Let_def sel b' call prod.case out[symmetric] upd n[symmetric]
    by (rule refl)
qed


lemma txDeflate_loop_end: "txDeflate_loop Z r inp 4 = (False, r)"
  by (subst txDeflate_loop.simps) simp

lemma txDeflate_loop_step:
  "attempt < 4 \<Longrightarrow> txDeflate_loop Z r inp attempt =
     (case txDeflate_attempt Z r inp attempt of
        Retry r' \<Rightarrow> txDeflate_loop Z r' inp (attempt + 1)
      | Done ok r' \<Rightarrow> (ok, r'))"
  by (subst txDeflate_loop.simps) simp

lemma txDeflate_loop_unroll:
  "txDeflate_loop Z r inp 3 =
     (case txDeflate_attempt Z r inp 3 of Retry r' \<Rightarrow> (False, r') | Done ok r' \<Rightarrow> (ok, r'))"
  "txDeflate_loop Z r inp 2 =
     (case txDeflate_attempt Z r inp 2 of
        Retry r' \<Rightarrow> txDeflate_loop Z r' inp 3 | Done ok r' \<Rightarrow> (ok, r'))"
  "txDeflate_loop Z r inp 1 =
     (case txDeflate_attempt Z r inp 1 of
        Retry r' \<Rightarrow> txDeflate_loop Z r' inp 2 | Done ok r' \<Rightarrow> (ok, r'))"
  "txDeflate_loop Z r inp 0 =
     (case txDeflate_attempt Z r inp 0 of
        Retry r' \<Rightarrow> txDeflate_loop Z r' inp 1 | Done ok r' \<Rightarrow> (ok, r'))"
proof -
  show "txDeflate_loop Z r inp 3 =
     (case txDeflate_attempt Z r inp 3 of Retry r' \<Rightarrow> (False, r') | Done ok r' \<Rightarrow> (ok, r'))"
    by (subst txDeflate_loop.simps) (simp add: txDeflate_loop_end split: tx_attempt.splits)
  show "txDeflate_loop Z r inp 2 =
     (case txDeflate_attempt Z r inp 2 of
        Retry r' \<Rightarrow> txDeflate_loop Z r' inp 3 | Done ok r' \<Rightarrow> (ok, r'))"
    by (subst txDeflate_loop.simps) (simp split: tx_attempt.splits)
  show "txDeflate_loop Z r inp 1 =
     (case txDeflate_attempt Z r inp 1 of
        Retry r' \<Rightarrow> txDeflate_loop Z r' inp 2 | Done ok r' \<Rightarrow> (ok, r'))"
    by (subst txDeflate_loop.simps) (simp add: numeral_2_eq_2 split: tx_attempt.splits)
  show "txDeflate_loop Z r inp 0 =
     (case txDeflate_attempt Z r inp 0 of
        Retry r' \<Rightarrow> txDeflate_loop Z r' inp 1 | Done ok r' \<Rightarrow> (ok, r'))"
    by (subst txDeflate_loop.simps) (simp split: tx_attempt.splits)
qed


subsection \<open>C6: \<open>txPrepare\<close> never fails\<close>

text \<open>
  Claim C6. \<open>txPrepare\<close> returns true for every input. When compression is not
  requested, not negotiated, not initialized, or \<open>txDeflate\<close> fails, the
  out-parameters are the original pointer and length with \<open>do_compress\<close> false;
  when all four hold they are the compression buffer, \<open>tx_payload_len\<close> and
  \<open>do_compress\<close> true.
\<close>

theorem txPrepare_never_fails:
  "fst (txPrepare Z r original request_compress) = True
   \<and> ((\<not> request_compress \<or> \<not> enabled (cfg r) \<or> \<not> deflate_initialized r
         \<or> \<not> fst (txDeflate Z r original))
        \<longrightarrow> fst (snd (txPrepare Z r original request_compress))
              = \<lparr> payload_ptr = Original, payload_len = length original,
                  payload_bytes = original, do_compress = False \<rparr>)
   \<and> (request_compress \<and> enabled (cfg r) \<and> deflate_initialized r \<and> fst (txDeflate Z r original)
        \<longrightarrow> fst (snd (txPrepare Z r original request_compress))
              = \<lparr> payload_ptr = Compressed,
                  payload_len = tx_payload_len (snd (txDeflate Z r original)),
                  payload_bytes = take (tx_payload_len (snd (txDeflate Z r original)))
                                    (tx_compressed_buf (snd (txDeflate Z r original))),
                  do_compress = True \<rparr>)"
  by (rule txPrepare_shape)

text \<open>
  On the toy compressor: a compressed message, a message for which compression
  is not requested, and a receiver that did not negotiate compression.
\<close>

theorem txPrepare_never_fails_witness:
  "fst (txPrepare toy_zlib receiver1 [1, 2, 3] True) = True
   \<and> fst (snd (txPrepare toy_zlib receiver1 [1, 2, 3] True))
       = \<lparr> payload_ptr = Compressed, payload_len = 4, payload_bytes = [0, 1, 2, 3],
           do_compress = True \<rparr>
   \<and> fst (snd (txPrepare toy_zlib receiver1 [1, 2, 3] False))
       = \<lparr> payload_ptr = Original, payload_len = 3, payload_bytes = [1, 2, 3],
           do_compress = False \<rparr>
   \<and> fst (snd (txPrepare toy_zlib receiver0 [1, 2, 3] True))
       = \<lparr> payload_ptr = Original, payload_len = 3, payload_bytes = [1, 2, 3],
           do_compress = False \<rparr>"
proof -
  have c1: "enabled (cfg receiver1) \<and> deflate_initialized receiver1"
    by (simp add: receiver1_def)
  have c0: "\<not> enabled (cfg receiver0)"
    by (simp add: receiver0_def default_cfg_def)
  have 1: "fst (txPrepare toy_zlib receiver1 [1, 2, 3] True) = True"
    using txPrepare_never_fails[of toy_zlib receiver1 "[1, 2, 3]" True, THEN conjunct1] .
  have 2: "fst (snd (txPrepare toy_zlib receiver1 [1, 2, 3] True))
       = \<lparr> payload_ptr = Compressed, payload_len = 4, payload_bytes = [0, 1, 2, 3],
           do_compress = True \<rparr>"
    using txPrepare_never_fails[of toy_zlib receiver1 "[1, 2, 3]" True, THEN conjunct2,
        THEN conjunct2] c1
    by (simp add: toy_txDeflate)
  have 3: "fst (snd (txPrepare toy_zlib receiver1 [1, 2, 3] False))
       = \<lparr> payload_ptr = Original, payload_len = 3, payload_bytes = [1, 2, 3],
           do_compress = False \<rparr>"
    using txPrepare_never_fails[of toy_zlib receiver1 "[1, 2, 3]" False, THEN conjunct2,
        THEN conjunct1]
    by simp
  have 4: "fst (snd (txPrepare toy_zlib receiver0 [1, 2, 3] True))
       = \<lparr> payload_ptr = Original, payload_len = 3, payload_bytes = [1, 2, 3],
           do_compress = False \<rparr>"
    using txPrepare_never_fails[of toy_zlib receiver0 "[1, 2, 3]" True, THEN conjunct2,
        THEN conjunct1] c0
    by simp
  from 1 2 3 4 show ?thesis by blast
qed

subsection \<open>C4: the attempts of \<open>txDeflate\<close>\<close>




subsection \<open>The transmit side: what an attempt depends on\<close>

lemma zero_beyond_overwrite:
  assumes "zero_beyond xs" "length out < 2 ^ 32"
  shows "zero_beyond (out @ drop (length out) (resize xs bound))"
  unfolding zero_beyond_def
proof (intro allI impI)
  fix i
  assume i: "2 ^ 32 - 1 \<le> i \<and> i < length (out @ drop (length out) (resize xs bound))"
  have lo: "length out \<le> i" using i assms(2) by simp
  show "(out @ drop (length out) (resize xs bound)) ! i = 0"
  proof (cases "length out \<le> bound")
    case True
    then have ib: "i < bound" using i by (simp add: length_resize)
    have "(out @ drop (length out) (resize xs bound)) ! i = resize xs bound ! i"
      using nth_overwrite[of out i "resize xs bound"] lo True by (simp add: length_resize)
    also have "\<dots> = 0"
      using i ib assms(1) unfolding zero_beyond_def by (simp add: nth_resize)
    finally show ?thesis .
  next
    case False
    then show ?thesis using i lo by (simp add: length_resize)
  qed
qed

lemma txDeflate_attempt_char:
  assumes init: "deflate_initialized r" and zb: "zero_beyond (tx_compressed_buf r)"
    and bound: "bound = deflateBound Z (deflateReset Z (deflate_stream r)) (length inp)
                  + 64 * (attempt + 1)"
    and call: "deflate Z (deflateReset Z (deflate_stream r)) (take (length inp mod 2 ^ 32) inp)
                 (bound mod 2 ^ 32) = (ret, consumed, written, strm)"
    and out: "out = take (bound mod 2 ^ 32) written"
    and r2: "r2 = r\<lparr> deflate_stream := strm,
                     tx_compressed_buf := out @ drop (length out) (resize (tx_compressed_buf r) bound) \<rparr>"
  shows "txDeflate_attempt Z r inp attempt =
     (if ret \<noteq> Z_OK then
        (if ret = Z_BUF_ERROR \<or> bound mod 2 ^ 32 - length out = 0 then Retry r2 else Done False r2)
      else if bound < 2 ^ 32 \<and> 4 \<le> length out
              \<and> drop (length out - 4) out = [0x00, 0x00, 0xFF, 0xFF]
      then (if client_no_context_takeover (cfg r)
            then Done (fst (deflateInit2 Z (compression_level (cfg r))
                              (- client_max_window_bits (cfg r))) = Z_OK)
                   (r2\<lparr> tx_payload_len := length out - 4,
                       deflate_initialized :=
                         (fst (deflateInit2 Z (compression_level (cfg r))
                                 (- client_max_window_bits (cfg r))) = Z_OK),
                       deflate_stream :=
                         snd (deflateInit2 Z (compression_level (cfg r))
                                (- client_max_window_bits (cfg r))) \<rparr>)
            else Done True (r2\<lparr> tx_payload_len := length out - 4 \<rparr>))
      else Retry r2)"
proof -
  define n where "n = bound - (bound mod 2 ^ 32 - length out)"
  note U = txDeflate_attempt_unfold[OF init bound call out r2 n_def]
  have lo: "length out \<le> bound mod 2 ^ 32" using out by simp
  have lo32: "length out < 2 ^ 32"
  proof -
    have "bound mod 2 ^ 32 < (2 ^ 32 :: nat)" by simp
    then show ?thesis using lo by linarith
  qed
  have lb: "bound mod 2 ^ 32 \<le> bound" by simp
  have tb: "tx_compressed_buf r2 = out @ drop (length out) (resize (tx_compressed_buf r) bound)"
    by (simp add: r2)
  have len2: "length (tx_compressed_buf r2) = bound"
    unfolding tb using lo lb by (simp add: length_resize)
  have zb2: "zero_beyond (tx_compressed_buf r2)"
    unfolding tb by (rule zero_beyond_overwrite[OF zb lo32])
  have cfg2: "cfg r2 = cfg r" "deflate_initialized r2" using init by (simp_all add: r2)
  show ?thesis
  proof (cases "ret = Z_OK")
    case False
    then show ?thesis unfolding U by simp
  next
    case ok: True
    show ?thesis
    proof (cases "bound < 2 ^ 32")
      case small: True
      then have bm: "bound mod 2 ^ 32 = bound" by simp
      have nv: "n = length out" unfolding n_def bm using lo bm by simp
      show ?thesis
      proof (cases "4 \<le> length out")
        case False
        then show ?thesis unfolding U nv using ok by simp
      next
        case l4: True
        have buf: "(tx_compressed_buf r2 ! (length out - 4) = 0
           \<and> tx_compressed_buf r2 ! (length out - 3) = 0
           \<and> tx_compressed_buf r2 ! (length out - 2) = 0xFF
           \<and> tx_compressed_buf r2 ! (length out - 1) = 0xFF)
          = (drop (length out - 4) out = [0x00, 0x00, 0xFF, 0xFF])"
          unfolding tb using last4_nth[OF l4, of 0 0 "0xFF" "0xFF"] l4 by (simp add: nth_append)
        show ?thesis
          unfolding U nv
          using ok l4 small buf cfg2
          by (auto simp add: txReinitAfterNoContextTakeover_def Let_def r2 split: prod.splits)
      qed
    next
      case big: False
      have "bound - bound mod 2 ^ 32 \<le> n" unfolding n_def by simp
      moreover have "2 ^ 32 \<le> bound - bound mod 2 ^ 32"
      proof -
        have "bound = 2 ^ 32 * (bound div 2 ^ 32) + bound mod 2 ^ 32" by simp
        moreover have "1 \<le> bound div 2 ^ 32" using big by (simp add: Suc_le_eq div_greater_zero_iff)
        ultimately show ?thesis
          by (metis add_diff_cancel_right' mult.right_neutral mult_le_mono2)
      qed
      ultimately have n32: "2 ^ 32 \<le> n" by linarith
      have nb: "n \<le> bound" unfolding n_def by simp
      have "2 ^ 32 - 1 \<le> n - 1 \<and> n - 1 < length (tx_compressed_buf r2)"
        using n32 nb len2 by (simp, linarith)
      then have "tx_compressed_buf r2 ! (n - 1) = 0"
        using zb2 unfolding zero_beyond_def by blast
      then have nf: "tx_compressed_buf r2 ! (n - 1) \<noteq> 0xFF" by simp
      show ?thesis unfolding U using ok big nf by simp
    qed
  qed
qed

lemma tx_equiv_sym: "tx_equiv Z a b \<Longrightarrow> tx_equiv Z b a"
  by (simp add: tx_equiv_def)

lemma tx_equiv_trans: "tx_equiv Z a b \<Longrightarrow> tx_equiv Z b c \<Longrightarrow> tx_equiv Z a c"
  by (simp add: tx_equiv_def)

lemma txDeflate_attempt_equiv:
  assumes e: "tx_equiv Z a b" and ia: "deflate_initialized a"
  shows "(\<exists>a' b'. txDeflate_attempt Z a inp k = Retry a' \<and> txDeflate_attempt Z b inp k = Retry b'
             \<and> tx_equiv Z a' b' \<and> deflate_initialized a')
       \<or> (\<exists>ok a' b'. txDeflate_attempt Z a inp k = Done ok a'
             \<and> txDeflate_attempt Z b inp k = Done ok b' \<and> tx_equiv Z a' b'
             \<and> tx_wire (ok, a') = tx_wire (ok, b'))"
proof -
  have ib: "deflate_initialized b" using e ia by (simp add: tx_equiv_def)
  have c: "cfg b = cfg a" using e by (simp add: tx_equiv_def)
  have s: "deflateReset Z (deflate_stream b) = deflateReset Z (deflate_stream a)"
    using e by (simp add: tx_equiv_def)
  have za: "zero_beyond (tx_compressed_buf a)" and zb: "zero_beyond (tx_compressed_buf b)"
    using e by (simp_all add: tx_equiv_def)
  define bound where
    "bound = deflateBound Z (deflateReset Z (deflate_stream a)) (length inp) + 64 * (k + 1)"
  obtain ret consumed written strm where
    call: "deflate Z (deflateReset Z (deflate_stream a)) (take (length inp mod 2 ^ 32) inp)
             (bound mod 2 ^ 32) = (ret, consumed, written, strm)"
    by (metis prod_cases4)
  define out where "out = take (bound mod 2 ^ 32) written"
  define a2 where "a2 = a\<lparr> deflate_stream := strm,
     tx_compressed_buf := out @ drop (length out) (resize (tx_compressed_buf a) bound) \<rparr>"
  define b2 where "b2 = b\<lparr> deflate_stream := strm,
     tx_compressed_buf := out @ drop (length out) (resize (tx_compressed_buf b) bound) \<rparr>"
  note A = txDeflate_attempt_char[OF ia za bound_def call out_def a2_def]
  note B = txDeflate_attempt_char[OF ib zb bound_def[folded s] call[folded s] out_def b2_def,
      unfolded c]
  have lo32: "length out < 2 ^ 32"
  proof -
    have "bound mod 2 ^ 32 < (2 ^ 32 :: nat)" by simp
    moreover have "length out \<le> bound mod 2 ^ 32" by (simp add: out_def)
    ultimately show ?thesis by linarith
  qed
  have z2: "zero_beyond (tx_compressed_buf a2)" "zero_beyond (tx_compressed_buf b2)"
    unfolding a2_def b2_def
    using zero_beyond_overwrite[OF za lo32, of bound] zero_beyond_overwrite[OF zb lo32, of bound]
    by simp_all
  have e2: "tx_equiv Z a2 b2"
    using z2 c ia ib by (simp add: tx_equiv_def a2_def b2_def)
  have i2: "deflate_initialized a2" using ia by (simp add: a2_def)
  have e3: "\<And>n x y. tx_equiv Z (a2\<lparr> tx_payload_len := n, deflate_initialized := x,
                 deflate_stream := y \<rparr>)
               (b2\<lparr> tx_payload_len := n, deflate_initialized := x, deflate_stream := y \<rparr>)"
    using e2 by (simp add: tx_equiv_def)
  have e4: "\<And>n. tx_equiv Z (a2\<lparr> tx_payload_len := n \<rparr>) (b2\<lparr> tx_payload_len := n \<rparr>)"
    using e2 by (simp add: tx_equiv_def)
  have w3: "\<And>x y. tx_wire (x, a2\<lparr> tx_payload_len := length out - 4, deflate_initialized := x,
                 deflate_stream := y \<rparr>)
            = tx_wire (x, b2\<lparr> tx_payload_len := length out - 4, deflate_initialized := x,
                 deflate_stream := y \<rparr>)"
    by (simp add: tx_wire_def a2_def b2_def)
  have w4: "tx_wire (True, a2\<lparr> tx_payload_len := length out - 4 \<rparr>)
            = tx_wire (True, b2\<lparr> tx_payload_len := length out - 4 \<rparr>)"
    by (simp add: tx_wire_def a2_def b2_def)
  have w5: "tx_wire (False, a2) = tx_wire (False, b2)" by (simp add: tx_wire_def)
  define retry where "retry = (ret = Z_BUF_ERROR \<or> bound mod 2 ^ 32 - length out = 0)"
  define tail where "tail = (bound < 2 ^ 32 \<and> 4 \<le> length out
              \<and> drop (length out - 4) out = [0x00, 0x00, 0xFF, 0xFF])"
  note A' = A[folded retry_def tail_def]
  note B' = B[folded retry_def tail_def]
  consider (err_retry) "ret \<noteq> Z_OK" "retry" | (err_fail) "ret \<noteq> Z_OK" "\<not> retry"
    | (ok_reinit) "ret = Z_OK" "tail" "client_no_context_takeover (cfg a)"
    | (ok_keep) "ret = Z_OK" "tail" "\<not> client_no_context_takeover (cfg a)"
    | (ok_retry) "ret = Z_OK" "\<not> tail"
    by blast
  then show ?thesis
  proof cases
    case err_retry
    then have "txDeflate_attempt Z a inp k = Retry a2" "txDeflate_attempt Z b inp k = Retry b2"
      unfolding A' B' by simp_all
    then show ?thesis using e2 i2 by blast
  next
    case err_fail
    then have "txDeflate_attempt Z a inp k = Done False a2"
      "txDeflate_attempt Z b inp k = Done False b2"
      unfolding A' B' by simp_all
    then show ?thesis using e2 w5 by blast
  next
    case ok_reinit
    then have "txDeflate_attempt Z a inp k =
        Done (fst (deflateInit2 Z (compression_level (cfg a))
                              (- client_max_window_bits (cfg a))) = Z_OK)
                   (a2\<lparr> tx_payload_len := length out - 4,
                       deflate_initialized :=
                         (fst (deflateInit2 Z (compression_level (cfg a))
                                 (- client_max_window_bits (cfg a))) = Z_OK),
                       deflate_stream :=
                         snd (deflateInit2 Z (compression_level (cfg a))
                                (- client_max_window_bits (cfg a))) \<rparr>)"
      "txDeflate_attempt Z b inp k =
        Done (fst (deflateInit2 Z (compression_level (cfg a))
                              (- client_max_window_bits (cfg a))) = Z_OK)
                   (b2\<lparr> tx_payload_len := length out - 4,
                       deflate_initialized :=
                         (fst (deflateInit2 Z (compression_level (cfg a))
                                 (- client_max_window_bits (cfg a))) = Z_OK),
                       deflate_stream :=
                         snd (deflateInit2 Z (compression_level (cfg a))
                                (- client_max_window_bits (cfg a))) \<rparr>)"
      unfolding A' B' by simp_all
    then show ?thesis using e3 w3 by blast
  next
    case ok_keep
    then have "txDeflate_attempt Z a inp k = Done True (a2\<lparr> tx_payload_len := length out - 4 \<rparr>)"
      "txDeflate_attempt Z b inp k = Done True (b2\<lparr> tx_payload_len := length out - 4 \<rparr>)"
      unfolding A' B' by simp_all
    then show ?thesis using e4 w4 by blast
  next
    case ok_retry
    then have "txDeflate_attempt Z a inp k = Retry a2" "txDeflate_attempt Z b inp k = Retry b2"
      unfolding A' B' by simp_all
    then show ?thesis using e2 i2 by blast
  qed
qed

lemma txDeflate_loop_equiv:
  "tx_equiv Z a b \<Longrightarrow> deflate_initialized a \<Longrightarrow> k \<le> 4 \<Longrightarrow> d = 4 - k \<Longrightarrow>
   fst (txDeflate_loop Z a inp k) = fst (txDeflate_loop Z b inp k)
   \<and> tx_equiv Z (snd (txDeflate_loop Z a inp k)) (snd (txDeflate_loop Z b inp k))
   \<and> tx_wire (txDeflate_loop Z a inp k) = tx_wire (txDeflate_loop Z b inp k)"
proof (induction d arbitrary: a b k)
  case 0
  then have k: "k = 4" by simp
  show ?case unfolding k txDeflate_loop_end using 0(1) by (simp add: tx_wire_def)
next
  case (Suc d)
  then have k: "k < 4" by simp
  from txDeflate_attempt_equiv[OF Suc.prems(1,2), of inp k]
  show ?case
  proof (elim disjE exE conjE)
    fix a' b'
    assume r: "txDeflate_attempt Z a inp k = Retry a'" "txDeflate_attempt Z b inp k = Retry b'"
      "tx_equiv Z a' b'" "deflate_initialized a'"
    have "k + 1 \<le> 4" "d = 4 - (k + 1)" using Suc.prems by simp_all
    from Suc.IH[OF r(3) r(4) this]
    show ?thesis unfolding txDeflate_loop_step[OF k] r by simp
  next
    fix ok a' b'
    assume r: "txDeflate_attempt Z a inp k = Done ok a'" "txDeflate_attempt Z b inp k = Done ok b'"
      "tx_equiv Z a' b'" "tx_wire (ok, a') = tx_wire (ok, b')"
    show ?thesis unfolding txDeflate_loop_step[OF k] r using r(3,4) by simp
  qed
qed

lemma txDeflate_equiv:
  assumes "tx_equiv Z a b"
  shows "tx_wire (txDeflate Z a m) = tx_wire (txDeflate Z b m)"
proof (cases "deflate_initialized a")
  case True
  then have "deflate_initialized b" using assms by (simp add: tx_equiv_def)
  then show ?thesis
    using True txDeflate_loop_equiv[OF assms True, of 0 4 m] by (simp add: txDeflate_def)
next
  case False
  then have "\<not> deflate_initialized b" using assms by (simp add: tx_equiv_def)
  then show ?thesis using False by (simp add: txDeflate_def tx_wire_def)
qed

lemma tx_inv_equiv: "tx_equiv Z r r' \<Longrightarrow> tx_inv Z r \<Longrightarrow> tx_inv Z r'"
  by (simp add: tx_equiv_def tx_inv_def)

lemma tx_equiv_refl: "tx_inv Z r \<Longrightarrow> tx_equiv Z r r"
  by (simp add: tx_equiv_def tx_inv_def)

lemma txDeflate_attempt_inv:
  assumes rf: "reset_forgets Z" and inv: "tx_inv Z r" and init: "deflate_initialized r"
  shows "\<exists>r'. (txDeflate_attempt Z r inp k = Retry r'
               \<or> (\<exists>ok. txDeflate_attempt Z r inp k = Done ok r'))
             \<and> tx_equiv Z r r'"
proof -
  have zb: "zero_beyond (tx_compressed_buf r)" using inv by (simp add: tx_inv_def)
  have iok: "fst (deflateInit2 Z (compression_level (cfg r)) (- client_max_window_bits (cfg r)))
               = Z_OK"
    and ist: "deflateReset Z (snd (deflateInit2 Z (compression_level (cfg r))
                                    (- client_max_window_bits (cfg r))))
               = deflateReset Z (deflate_stream r)"
    using inv init by (simp_all add: tx_inv_def)
  define bound where
    "bound = deflateBound Z (deflateReset Z (deflate_stream r)) (length inp) + 64 * (k + 1)"
  obtain ret consumed written strm where
    call: "deflate Z (deflateReset Z (deflate_stream r)) (take (length inp mod 2 ^ 32) inp)
             (bound mod 2 ^ 32) = (ret, consumed, written, strm)"
    by (metis prod_cases4)
  define out where "out = take (bound mod 2 ^ 32) written"
  define r2 where "r2 = r\<lparr> deflate_stream := strm,
     tx_compressed_buf := out @ drop (length out) (resize (tx_compressed_buf r) bound) \<rparr>"
  note A = txDeflate_attempt_char[OF init zb bound_def call out_def r2_def]
  have lo32: "length out < 2 ^ 32"
  proof -
    have "bound mod 2 ^ 32 < (2 ^ 32 :: nat)" by simp
    moreover have "length out \<le> bound mod 2 ^ 32" by (simp add: out_def)
    ultimately show ?thesis by linarith
  qed
  have z2: "zero_beyond (tx_compressed_buf r2)"
    unfolding r2_def using zero_beyond_overwrite[OF zb lo32, of bound] by simp
  have "deflateReset Z (snd (snd (snd (deflate Z (deflateReset Z (deflate_stream r))
            (take (length inp mod 2 ^ 32) inp) (bound mod 2 ^ 32)))))
          = deflateReset Z (deflate_stream r)"
    using rf unfolding reset_forgets_def by blast
  then have rs: "deflateReset Z strm = deflateReset Z (deflate_stream r)"
    unfolding call by simp
  have e2: "tx_equiv Z r r2"
    using z2 zb rs by (simp add: tx_equiv_def r2_def)
  have e3: "tx_equiv Z r (r2\<lparr> tx_payload_len := length out - 4, deflate_initialized := True,
                 deflate_stream := snd (deflateInit2 Z (compression_level (cfg r))
                                (- client_max_window_bits (cfg r))) \<rparr>)"
    using z2 zb ist init by (simp add: tx_equiv_def r2_def)
  have e4: "tx_equiv Z r (r2\<lparr> tx_payload_len := length out - 4 \<rparr>)"
    using e2 by (simp add: tx_equiv_def)
  define retry where "retry = (ret = Z_BUF_ERROR \<or> bound mod 2 ^ 32 - length out = 0)"
  define tail where "tail = (bound < 2 ^ 32 \<and> 4 \<le> length out
              \<and> drop (length out - 4) out = [0x00, 0x00, 0xFF, 0xFF])"
  note A' = A[unfolded iok, folded retry_def tail_def]
  consider (err_retry) "ret \<noteq> Z_OK" "retry" | (err_fail) "ret \<noteq> Z_OK" "\<not> retry"
    | (ok_reinit) "ret = Z_OK" "tail" "client_no_context_takeover (cfg r)"
    | (ok_keep) "ret = Z_OK" "tail" "\<not> client_no_context_takeover (cfg r)"
    | (ok_retry) "ret = Z_OK" "\<not> tail"
    by blast
  then show ?thesis
  proof cases
    case err_retry
    then have "txDeflate_attempt Z r inp k = Retry r2" unfolding A' by simp
    then show ?thesis using e2 by blast
  next
    case err_fail
    then have "txDeflate_attempt Z r inp k = Done False r2" unfolding A' by simp
    then show ?thesis using e2 by blast
  next
    case ok_reinit
    then have "txDeflate_attempt Z r inp k =
        Done True (r2\<lparr> tx_payload_len := length out - 4, deflate_initialized := True,
                 deflate_stream := snd (deflateInit2 Z (compression_level (cfg r))
                                (- client_max_window_bits (cfg r))) \<rparr>)"
      unfolding A' by simp
    then show ?thesis using e3 by blast
  next
    case ok_keep
    then have "txDeflate_attempt Z r inp k = Done True (r2\<lparr> tx_payload_len := length out - 4 \<rparr>)"
      unfolding A' by simp
    then show ?thesis using e4 by blast
  next
    case ok_retry
    then have "txDeflate_attempt Z r inp k = Retry r2" unfolding A' by simp
    then show ?thesis using e2 by blast
  qed
qed

lemma txDeflate_loop_inv:
  "reset_forgets Z \<Longrightarrow> tx_inv Z r \<Longrightarrow> deflate_initialized r \<Longrightarrow> k \<le> 4 \<Longrightarrow> d = 4 - k \<Longrightarrow>
   tx_equiv Z r (snd (txDeflate_loop Z r inp k))"
proof (induction d arbitrary: r k)
  case 0
  then have k: "k = 4" by simp
  show ?case unfolding k txDeflate_loop_end using 0(2) by (simp add: tx_equiv_refl)
next
  case (Suc d)
  then have k: "k < 4" by simp
  from txDeflate_attempt_inv[OF Suc.prems(1,2,3), of inp k]
  obtain r' where r: "txDeflate_attempt Z r inp k = Retry r'
               \<or> (\<exists>ok. txDeflate_attempt Z r inp k = Done ok r')" "tx_equiv Z r r'"
    by blast
  from r(1) show ?case
  proof (elim disjE exE)
    assume a: "txDeflate_attempt Z r inp k = Retry r'"
    have i': "tx_inv Z r'" using tx_inv_equiv[OF r(2) Suc.prems(2)] .
    have d': "deflate_initialized r'" using r(2) Suc.prems(3) by (simp add: tx_equiv_def)
    have "k + 1 \<le> 4" "d = 4 - (k + 1)" using Suc.prems by simp_all
    from Suc.IH[OF Suc.prems(1) i' d' this]
    have "tx_equiv Z r' (snd (txDeflate_loop Z r' inp (k + 1)))" .
    then show ?thesis
      unfolding txDeflate_loop_step[OF k] a using tx_equiv_trans[OF r(2)] by simp
  next
    fix ok assume a: "txDeflate_attempt Z r inp k = Done ok r'"
    show ?thesis unfolding txDeflate_loop_step[OF k] a using r(2) by simp
  qed
qed

lemma txDeflate_inv:
  assumes "reset_forgets Z" "tx_inv Z r"
  shows "tx_equiv Z r (snd (txDeflate Z r m))"
proof (cases "deflate_initialized r")
  case True
  then show ?thesis
    using txDeflate_loop_inv[OF assms True, of 0 4 m] by (simp add: txDeflate_def)
next
  case False
  then show ?thesis using tx_equiv_refl[OF assms(2)] by (simp add: txDeflate_def)
qed

lemma tx_history_equiv:
  "reset_forgets Z \<Longrightarrow> tx_inv Z r \<Longrightarrow> tx_equiv Z r (tx_history Z r ms)"
proof (induction ms arbitrary: r)
  case Nil
  then show ?case by (simp add: tx_history_def tx_equiv_refl)
next
  case (Cons m ms)
  have e: "tx_equiv Z r (snd (txDeflate Z r m))" using txDeflate_inv[OF Cons.prems] .
  have i: "tx_inv Z (snd (txDeflate Z r m))" using tx_inv_equiv[OF e Cons.prems(2)] .
  have "tx_equiv Z (snd (txDeflate Z r m)) (tx_history Z (snd (txDeflate Z r m)) ms)"
    using Cons.IH[OF Cons.prems(1) i] .
  then show ?case using tx_equiv_trans[OF e] by (simp add: tx_history_def)
qed

lemma initializeCompression_inv: "tx_inv Z (snd (initializeCompression Z r c))"
  by (simp add: initializeCompression_def shutdownCompression_def rxInitInflate_def
      txInitDeflate_def tx_inv_def zero_beyond_def Let_def split: prod.splits)

lemma txDeflate_attempt_reset:
  assumes "deflate_initialized r" "deflateReset Z s = deflateReset Z (deflate_stream r)"
  shows "txDeflate_attempt Z (r\<lparr> deflate_stream := s \<rparr>) inp k = txDeflate_attempt Z r inp k"
  using assms by (simp add: txDeflate_attempt_def txResetDeflate_def)


subsection \<open>C10: no compression context carries over between outbound messages\<close>

text \<open>
  Claim C10. An attempt of \<open>txDeflate\<close> uses the stream only through
  \<open>deflateReset\<close>: replacing the stream by any other with the same reset leaves
  the attempt unchanged. Hence, for a zlib whose reset forgets what was
  compressed, and a receiver set up by \<open>initializeCompression\<close> with any
  configuration, what \<open>txDeflate\<close> produces for a message \<open>m\<close> (success or failure,
  and the bytes handed to the sender) is the same after any two histories
  \<open>ms1\<close> and \<open>ms2\<close> of earlier messages, whether or not
  \<open>client_no_context_takeover\<close> was negotiated.
\<close>

theorem txDeflate_history_independent:
  "reset_forgets Z \<Longrightarrow>
   (deflate_initialized r \<and> deflateReset Z s = deflateReset Z (deflate_stream r) \<longrightarrow>
      txDeflate_attempt Z (r\<lparr> deflate_stream := s \<rparr>) inp k = txDeflate_attempt Z r inp k)
   \<and> tx_wire (txDeflate Z (tx_history Z (snd (initializeCompression Z r0 c)) ms1) m)
     = tx_wire (txDeflate Z (tx_history Z (snd (initializeCompression Z r0 c)) ms2) m)"
proof -
  assume rf: "reset_forgets Z"
  define r1 where "r1 = snd (initializeCompression Z r0 c)"
  have i: "tx_inv Z r1" unfolding r1_def by (rule initializeCompression_inv)
  have "tx_equiv Z (tx_history Z r1 ms1) (tx_history Z r1 ms2)"
    using tx_equiv_trans[OF tx_equiv_sym[OF tx_history_equiv[OF rf i, of ms1]]
        tx_history_equiv[OF rf i, of ms2]] .
  then have "tx_wire (txDeflate Z (tx_history Z r1 ms1) m)
     = tx_wire (txDeflate Z (tx_history Z r1 ms2) m)"
    by (rule txDeflate_equiv)
  then show ?thesis unfolding r1_def using txDeflate_attempt_reset[of r Z s inp k] by blast
qed

text \<open>
  The toy compressor starts its output with the number of bytes its stream has
  seen, so without the reset the output for the message \<open>[7]\<close> after five
  earlier bytes would start with 5; through \<open>txDeflate\<close> it is \<open>[0, 7]\<close> after any
  history.
\<close>

theorem txDeflate_history_independent_witness:
  "reset_forgets toy_zlib
   \<and> fst (snd (snd (deflate toy_zlib [1, 2, 3, 4, 5] [7] 72))) = [5, 7, 0, 0, 0xFF, 0xFF]
   \<and> tx_wire (txDeflate toy_zlib (tx_history toy_zlib receiver1 []) [7]) = Some [0, 7]
   \<and> tx_wire (txDeflate toy_zlib (tx_history toy_zlib receiver1 [[1, 2, 3], [4, 5]]) [7])
       = Some [0, 7]"
proof -
  have rf: "reset_forgets toy_zlib" by (simp add: reset_forgets_def toy_zlib_def)
  have r1: "snd (initializeCompression toy_zlib receiver0 (default_cfg\<lparr> enabled := True \<rparr>))
              = receiver1"
    by (simp add: receiver1_init)
  have a: "txDeflate_attempt toy_zlib receiver1 [7] 0
     = Done True (receiver1\<lparr> deflate_stream := [7],
         tx_compressed_buf := [0, 7, 0, 0, 0xFF, 0xFF] @ replicate 64 0,
         tx_payload_len := 2 \<rparr>)"
    by (simp add: txDeflate_attempt_def txResetDeflate_def receiver1_def receiver0_def toy_zlib_def
      default_cfg_def resize_def Let_def Z_OK_def Z_BUF_ERROR_def)
  have i: "deflate_initialized receiver1" by (simp add: receiver1_def)
  have 1: "tx_wire (txDeflate toy_zlib (tx_history toy_zlib receiver1 []) [7]) = Some [0, 7]"
    by (simp add: tx_history_def txDeflate_def i txDeflate_loop_unroll(4) a tx_wire_def)
  have 2: "tx_wire (txDeflate toy_zlib (tx_history toy_zlib receiver1 [[1, 2, 3], [4, 5]]) [7])
       = Some [0, 7]"
    using txDeflate_history_independent[where Z = toy_zlib and ?r0.0 = receiver0
        and c = "default_cfg\<lparr> enabled := True \<rparr>" and ?ms1.0 = "[[1, 2, 3], [4, 5]]"
        and ?ms2.0 = "[]" and m = "[7]", OF rf, THEN conjunct2] 1
    unfolding r1 by simp
  have 0: "fst (snd (snd (deflate toy_zlib [1, 2, 3, 4, 5] [7] 72))) = [5, 7, 0, 0, 0xFF, 0xFF]"
    by (simp add: toy_zlib_def)
  from rf 0 1 2 show ?thesis by blast
qed

subsection \<open>The receive side: \<open>rxInflate\<close>\<close>











subsection \<open>C5: \<open>rxInflate\<close> and \<open>Z_BUF_ERROR\<close>\<close>




subsection \<open>The receive side: the frames of a text message\<close>





























subsection \<open>C3: UTF-8 validation of text messages\<close>


end
